theory Spec2Isabelle
  imports Main
begin

section \<open>The scanner of src/lex.go (its last and most complete version)\<close>

text \<open>
  The file src/lex.go holds several successive versions of the scanner; the claims are
  about the last one (the one with number and string literals). A Go string is a
  sequence of bytes, modelled as a \<open>char list\<close>; a rune is an \<open>int\<close>; \<open>Pos\<close> is a
  byte position.
\<close>

type_synonym rune = int
type_synonym Pos = nat

datatype itemType =
    itemError | itemEOF | itemIdentifier | itemString | itemNumber | itemKeyword
  | itemComma | itemStar | itemSelect | itemFrom | itemSemicolon

record item =
  typ' :: itemType
  pos :: Pos
  val :: string
  line :: int

definition eof :: rune where
  "eof = -1"

definition spaceChars :: string where
  "spaceChars = [CHR '' '', CHR 0x09, CHR 0x0D, CHR 0x0A]"

subsection \<open>What the scanner takes from Go's standard library\<close>

text \<open>
  \<open>utf8.DecodeRuneInString\<close>: the first rune of a string and its width in bytes;
  \<open>(RuneError, 0)\<close> on the empty string and \<open>(RuneError, 1)\<close> on an encoding that is
  not valid UTF-8.
\<close>

definition RuneError :: rune where
  "RuneError = 0xFFFD"

text \<open>
  The encodings of two to four bytes: \<open>s0\<close> is the first byte (not ASCII), \<open>n\<close> the
  length of the string, \<open>s1\<close>, \<open>s2\<close>, \<open>s3\<close> the bytes that follow, read only where the
  length allows.
\<close>

definition decodeMulti :: "nat \<Rightarrow> nat \<Rightarrow> nat \<Rightarrow> nat \<Rightarrow> nat \<Rightarrow> rune \<times> nat" where
  "decodeMulti s0 n s1 s2 s3 =
     (if s0 < 0xC2 \<or> 0xF4 < s0 then (RuneError, 1)
      else
        let sz = (if s0 < 0xE0 then 2 else if s0 < 0xF0 then 3 else 4 :: nat);
            lo = (if s0 = 0xE0 then 0xA0 else if s0 = 0xF0 then 0x90 else 0x80);
            hi = (if s0 = 0xED then 0x9F else if s0 = 0xF4 then 0x8F else 0xBF)
        in if n < sz then (RuneError, 1)
           else if s1 < lo \<or> hi < s1 then (RuneError, 1)
           else if sz \<le> 2 then (int ((s0 mod 32) * 64 + s1 mod 64), 2)
           else if s2 < 0x80 \<or> 0xBF < s2 then (RuneError, 1)
           else if sz \<le> 3
             then (int ((s0 mod 16) * 4096 + (s1 mod 64) * 64 + s2 mod 64), 3)
           else if s3 < 0x80 \<or> 0xBF < s3 then (RuneError, 1)
           else (int ((s0 mod 8) * 262144 + (s1 mod 64) * 4096
                       + (s2 mod 64) * 64 + s3 mod 64), 4))"

definition DecodeRuneInString :: "string \<Rightarrow> rune \<times> nat" where
  "DecodeRuneInString s =
     (case s of
        [] \<Rightarrow> (RuneError, 0)
      | c # t \<Rightarrow>
          let s0 = (of_char c :: nat) in
          if s0 < 0x80 then (int s0, 1)
          else decodeMulti s0 (length s) (of_char (t ! 0)) (of_char (t ! 1))
                 (of_char (t ! 2)))"

lemma decodeMulti_width:
  "1 \<le> snd (decodeMulti s0 n s1 s2 s3) \<and> snd (decodeMulti s0 n s1 s2 s3) \<le> max 1 n"
  by (simp add: decodeMulti_def Let_def)

lemma mod_shift:
  fixes a k m :: nat
  assumes "k * m \<le> a" and "a < k * m + m"
  shows "a mod m = a - k * m"
proof -
  have "a mod m = (a - k * m + k * m) mod m" using assms by simp
  also have "\<dots> = (a - k * m) mod m" by simp
  also have "\<dots> = a - k * m" using assms by simp
  finally show ?thesis .
qed

lemma decodeMulti_value:
  assumes "128 \<le> s0"
  shows "128 \<le> fst (decodeMulti s0 n s1 s2 s3)"
proof -
  have s1a: "32 \<le> s1 mod 64" if "160 \<le> s1" and "s1 \<le> 191"
    using mod_shift [of 2 64 s1] that by simp
  have s1b: "16 \<le> s1 mod 64" if "144 \<le> s1" and "s1 \<le> 191"
    using mod_shift [of 2 64 s1] that by simp
  consider "s0 < 0xC2 \<or> 0xF4 < s0" | "194 \<le> s0" "s0 < 224" | "s0 = 224"
    | "225 \<le> s0" "s0 < 240" | "s0 = 240" | "241 \<le> s0" "s0 \<le> 244"
    by linarith
  then show ?thesis
  proof cases
    case 1
    then show ?thesis by (simp add: decodeMulti_def RuneError_def)
  next
    case 2
    then have "2 \<le> s0 mod 32" using mod_shift [of 6 32 s0] by simp
    with 2 show ?thesis by (simp add: decodeMulti_def RuneError_def)
  next
    case 3
    show ?thesis
    proof (cases "160 \<le> s1 \<and> s1 \<le> 191")
      case True
      with s1a have "32 \<le> s1 mod 64" by simp
      with 3 True show ?thesis by (simp add: decodeMulti_def RuneError_def)
    next
      case False
      with 3 show ?thesis by (auto simp add: decodeMulti_def RuneError_def)
    qed
  next
    case 4
    then have "1 \<le> s0 mod 16" using mod_shift [of 14 16 s0] by simp
    with 4 show ?thesis by (simp add: decodeMulti_def RuneError_def)
  next
    case 5
    show ?thesis
    proof (cases "144 \<le> s1 \<and> s1 \<le> 191")
      case True
      with s1b have "16 \<le> s1 mod 64" by simp
      with 5 True show ?thesis by (simp add: decodeMulti_def RuneError_def)
    next
      case False
      with 5 show ?thesis by (auto simp add: decodeMulti_def RuneError_def)
    qed
  next
    case 6
    then have "1 \<le> s0 mod 8" using mod_shift [of 30 8 s0] by simp
    with 6 show ?thesis by (simp add: decodeMulti_def RuneError_def)
  qed
qed

lemma DecodeRuneInString_width:
  "s \<noteq> [] \<Longrightarrow> 1 \<le> snd (DecodeRuneInString s) \<and> snd (DecodeRuneInString s) \<le> length s"
proof (cases s)
  case Nil
  assume "s \<noteq> []"
  with Nil show ?thesis by simp
next
  case (Cons a list)
  from decodeMulti_width [of "of_char a" "length s" "of_char (list ! 0)"
      "of_char (list ! 1)" "of_char (list ! 2)"] Cons
  show ?thesis by (simp add: DecodeRuneInString_def Let_def)
qed

lemma DecodeRuneInString_ascii:
  "s \<noteq> [] \<Longrightarrow> (of_char (hd s) :: nat) < 128
     \<Longrightarrow> DecodeRuneInString s = (int (of_char (hd s)), 1)"
  by (cases s) (simp_all add: DecodeRuneInString_def Let_def)

lemma DecodeRuneInString_non_ascii:
  "s \<noteq> [] \<Longrightarrow> \<not> (of_char (hd s) :: nat) < 128
     \<Longrightarrow> 128 \<le> fst (DecodeRuneInString s)"
proof (cases s)
  case Nil
  assume "s \<noteq> []"
  with Nil show ?thesis by simp
next
  case (Cons a list)
  assume "\<not> (of_char (hd s) :: nat) < 128"
  with Cons have "128 \<le> (of_char a :: nat)" by simp
  from decodeMulti_value [OF this, of "length s" "of_char (list ! 0)"
      "of_char (list ! 1)" "of_char (list ! 2)"] Cons this
  show ?thesis by (simp add: DecodeRuneInString_def Let_def)
qed

lemma DecodeRuneInString_nonneg: "0 \<le> fst (DecodeRuneInString s)"
proof (cases "s = []")
  case True
  then show ?thesis by (simp add: DecodeRuneInString_def RuneError_def)
next
  case False
  then show ?thesis
    using DecodeRuneInString_ascii [of s] DecodeRuneInString_non_ascii [of s]
    by (cases "(of_char (hd s) :: nat) < 128") simp_all
qed

text \<open>The conversion \<open>[]rune(s)\<close>: the runes of a string, decoded one after the other.\<close>

function runes :: "string \<Rightarrow> rune list" where
  "runes s = (if s = [] then []
              else fst (DecodeRuneInString s) # runes (drop (snd (DecodeRuneInString s)) s))"
  by pat_completeness auto
termination
proof (relation "measure length")
  show "wf (measure length)" by simp
next
  fix s :: string
  assume "s \<noteq> []"
  then show "(drop (snd (DecodeRuneInString s)) s, s) \<in> measure length"
    using DecodeRuneInString_width [of s] by simp
qed

declare runes.simps [simp del]

text \<open>
  \<open>strings.ContainsRune valid r\<close>: whether the rune occurs in the string. The end marker
  \<open>eof\<close> is no rune and occurs in no string.
\<close>

definition ContainsRune :: "string \<Rightarrow> rune \<Rightarrow> bool" where
  "ContainsRune valid r = (r \<in> set (runes valid))"

text \<open>
  \<open>strings.ToLower\<close> and \<open>strings.ToUpper\<close> on the letters A-Z and a-z; the scanner
  applies them to the keywords \<open>select\<close> and \<open>from\<close> only, so the case mapping of
  letters outside ASCII is left out.
\<close>

definition ToLower :: "string \<Rightarrow> string" where
  "ToLower s = map (\<lambda>c. if 65 \<le> (of_char c :: nat) \<and> (of_char c :: nat) \<le> 90
                         then char_of (of_char c + 32 :: nat) else c) s"

definition ToUpper :: "string \<Rightarrow> string" where
  "ToUpper s = map (\<lambda>c. if 97 \<le> (of_char c :: nat) \<and> (of_char c :: nat) \<le> 122
                         then char_of (of_char c - 32 :: nat) else c) s"

text \<open>
  The rest is taken as a parameter \<open>E\<close>: the tables of \<open>unicode.IsLetter\<close> and
  \<open>unicode.IsDigit\<close> above Latin-1 (below, the two functions are written out), and
  \<open>fmt.Sprintf\<close>, which formats the message of an error item from a format string and
  its arguments.
\<close>

datatype fmt_arg = ArgRune rune | ArgInt int | ArgString string

record env =
  LetterTable :: "rune \<Rightarrow> bool"
  DigitTable :: "rune \<Rightarrow> bool"
  Sprintf :: "string \<Rightarrow> fmt_arg list \<Rightarrow> string"

definition IsLetter :: "env \<Rightarrow> rune \<Rightarrow> bool" where
  "IsLetter E r =
     (if 0 \<le> r \<and> r \<le> 0xFF
      then (0x41 \<le> r \<and> r \<le> 0x5A) \<or> (0x61 \<le> r \<and> r \<le> 0x7A)
           \<or> r = 0xAA \<or> r = 0xB5 \<or> r = 0xBA
           \<or> (0xC0 \<le> r \<and> r \<le> 0xD6) \<or> (0xD8 \<le> r \<and> r \<le> 0xF6) \<or> 0xF8 \<le> r
      else 0xFF < r \<and> LetterTable E r)"

definition IsDigit :: "env \<Rightarrow> rune \<Rightarrow> bool" where
  "IsDigit E r = (if r \<le> 0xFF then 0x30 \<le> r \<and> r \<le> 0x39 else DigitTable E r)"

definition isAlphaNumeric :: "env \<Rightarrow> rune \<Rightarrow> bool" where
  "isAlphaNumeric E r = (r = 0x5F \<or> IsLetter E r \<or> IsDigit E r)"

definition isAlpha :: "env \<Rightarrow> rune \<Rightarrow> bool" where
  "isAlpha E r = (r = 0x5F \<or> IsLetter E r)"

subsection \<open>The scanner's state and its cursor\<close>

text \<open>
  The channel \<open>items\<close> is the list of the items sent so far, in the order they were
  sent: the channel is unbuffered and has one sender and one receiver, so this is also
  the order in which \<open>nextItem\<close> hands them to the consumer.
\<close>

record lexer =
  name :: string
  input :: string
  pos :: Pos
  start :: Pos
  width :: Pos
  items :: "item list"
  line :: int
  startLine :: int

text \<open>The slice \<open>s[a:b]\<close> of a string.\<close>

definition slice :: "string \<Rightarrow> nat \<Rightarrow> nat \<Rightarrow> string" where
  "slice s a b = take (b - a) (drop a s)"

definition nextRune :: "lexer \<Rightarrow> rune \<times> lexer" where
  "nextRune l =
     (if length (input l) \<le> pos l then (eof, l\<lparr>width := 0\<rparr>)
      else
        let r = fst (DecodeRuneInString (drop (pos l) (input l)));
            w = snd (DecodeRuneInString (drop (pos l) (input l)));
            l1 = l\<lparr>width := w\<rparr>;
            l2 = l1\<lparr>pos := pos l1 + width l1\<rparr>
        in (r, if r = 0x0A then l2\<lparr>line := line l2 + 1\<rparr> else l2))"

definition backup :: "lexer \<Rightarrow> lexer" where
  "backup l =
     (let l1 = l\<lparr>pos := pos l - width l\<rparr>
      in if width l1 = 1 \<and> input l1 ! pos l1 = CHR 0x0A
         then l1\<lparr>line := line l1 - 1\<rparr> else l1)"

definition peek :: "lexer \<Rightarrow> rune \<times> lexer" where
  "peek l = (let (r, l1) = nextRune l in (r, backup l1))"

definition emit :: "lexer \<Rightarrow> itemType \<Rightarrow> lexer" where
  "emit l t =
     (let l1 = l\<lparr>items := items l @
                  [\<lparr>typ' = t, pos = start l, val = slice (input l) (start l) (pos l),
                    line = startLine l\<rparr>]\<rparr>;
          l2 = l1\<lparr>start := pos l1\<rparr>
      in l2\<lparr>startLine := line l2\<rparr>)"

definition ignore :: "lexer \<Rightarrow> lexer" where
  "ignore l =
     (let l1 = l\<lparr>line := line l
                  + int (count_list (slice (input l) (start l) (pos l)) (CHR 0x0A))\<rparr>;
          l2 = l1\<lparr>start := pos l1\<rparr>
      in l2\<lparr>startLine := line l2\<rparr>)"

definition accept :: "string \<Rightarrow> lexer \<Rightarrow> bool \<times> lexer" where
  "accept valid l =
     (let (r, l1) = nextRune l
      in if ContainsRune valid r then (True, l1) else (False, backup l1))"

text \<open>Facts about \<open>nextRune\<close> that the loops below terminate by.\<close>

lemma ContainsRune_nonneg: "ContainsRune valid r \<Longrightarrow> 0 \<le> r"
  unfolding ContainsRune_def
proof (induction valid arbitrary: r rule: runes.induct)
  case (1 s)
  then show ?case
    using DecodeRuneInString_nonneg [of s]
    by (subst (asm) (2) runes.simps) (auto split: if_splits)
qed

lemma nextRune_input [simp]: "input (snd (nextRune l)) = input l"
  by (simp add: nextRune_def Let_def)

lemma nextRune_pos_le: "pos l \<le> pos (snd (nextRune l))"
  by (simp add: nextRune_def Let_def)

lemma nextRune_advance:
  assumes "0 \<le> fst (nextRune l)"
  shows "pos l < pos (snd (nextRune l)) \<and> pos (snd (nextRune l)) \<le> length (input l)"
proof -
  have lt: "pos l < length (input l)"
    using assms by (auto simp: nextRune_def eof_def split: if_splits)
  then have "drop (pos l) (input l) \<noteq> []" by simp
  from DecodeRuneInString_width [OF this] lt show ?thesis
    by (auto simp: nextRune_def Let_def)
qed

function acceptRun_loop :: "string \<Rightarrow> lexer \<Rightarrow> lexer" where
  "acceptRun_loop valid l =
     (if ContainsRune valid (fst (nextRune l)) then acceptRun_loop valid (snd (nextRune l))
      else snd (nextRune l))"
  by pat_completeness auto
termination
proof (relation "measure (\<lambda>(valid, l). length (input l) - pos l)")
  show "wf (measure (\<lambda>(valid, l). length (input l) - pos l))" by simp
next
  fix valid :: string and l :: lexer
  assume "ContainsRune valid (fst (nextRune l))"
  then have "0 \<le> fst (nextRune l)" by (rule ContainsRune_nonneg)
  from nextRune_advance [OF this]
  have "pos l < pos (snd (nextRune l))" and "pos (snd (nextRune l)) \<le> length (input l)"
    by simp_all
  then show "((valid, snd (nextRune l)), (valid, l))
          \<in> measure (\<lambda>(valid, l). length (input l) - pos l)"
    by simp
qed

declare acceptRun_loop.simps [simp del]

definition acceptRun :: "string \<Rightarrow> lexer \<Rightarrow> lexer" where
  "acceptRun valid l = backup (acceptRun_loop valid l)"

text \<open>
  \<open>errorf\<close> sends the error item and returns the nil state; the state functions below
  return the scanner with the next state, \<open>None\<close> for nil.
\<close>

datatype stateFn =
    StartStatement | SelectKeyword | ValueExprList | FromKeyword | FromTableName
  | EndOfStatement

definition errorf :: "env \<Rightarrow> lexer \<Rightarrow> string \<Rightarrow> fmt_arg list \<Rightarrow> lexer \<times> stateFn option" where
  "errorf E l format args =
     (l\<lparr>items := items l @
          [\<lparr>typ' = itemError, pos = start l, val = Sprintf E format args,
            line = startLine l\<rparr>]\<rparr>, None)"

subsection \<open>The sub-scanners\<close>

definition skipWhitespace :: "lexer \<Rightarrow> lexer" where
  "skipWhitespace l = (let l1 = acceptRun spaceChars l in l1\<lparr>start := pos l1\<rparr>)"

definition scanIdentifier :: "env \<Rightarrow> lexer \<Rightarrow> bool \<times> lexer" where
  "scanIdentifier E l =
     (let chars = ''abcdefghijklmnopqrstuvwxyzABCDEFGHIJKLMNOPQRSTUVWXYZ_'';
          charsAndDigits = chars @ ''0123456789'';
          (ok, l1) = accept chars l
      in if \<not> ok then (False, l1)
         else
           let l2 = acceptRun charsAndDigits l1;
               (r, l3) = peek l2
           in if isAlphaNumeric E r then (False, snd (nextRune l3)) else (True, l3))"

definition scanNumber :: "env \<Rightarrow> lexer \<Rightarrow> bool \<times> lexer" where
  "scanNumber E l =
     (let l1 = snd (accept ''+-'' l);
          digits0 = ''0123456789_'';
          (zero, l2) = accept ''0'' l1;
          (digits, l3) =
            (if zero then
               let (hex, m1) = accept ''xX'' l2 in
               if hex then (''0123456789abcdefABCDEF_'', m1)
               else
                 let (oct, m2) = accept ''oO'' m1 in
                 if oct then (''01234567_'', m2)
                 else
                   let (bin, m3) = accept ''bB'' m2 in
                   if bin then (''01_'', m3) else (digits0, m3)
             else (digits0, l2));
          l4 = acceptRun digits l3;
          (dot, l5) = accept ''.'' l4;
          l6 = (if dot then acceptRun digits l5 else l5);
          l7 = (if length digits = 10 + 1
                then let (e, m) = accept ''eE'' l6
                     in if e then acceptRun ''0123456789_'' (snd (accept ''+-'' m)) else m
                else l6);
          l8 = (if length digits = 16 + 6 + 1
                then let (p, m) = accept ''pP'' l7
                     in if p then acceptRun ''0123456789_'' (snd (accept ''+-'' m)) else m
                else l7);
          l9 = snd (accept ''i'' l8);
          (r, l10) = peek l9
      in if isAlphaNumeric E r then (False, snd (nextRune l10)) else (True, l10))"

text \<open>
  The loop of \<open>scanString\<close>, entered after the opening quote. Each round reads a
  rune; \<open>break\<close> leaves the switch and starts the next round.
\<close>

function scanString_loop :: "lexer \<Rightarrow> bool \<times> lexer" where
  "scanString_loop l =
     (let r = fst (nextRune l); l1 = snd (nextRune l)
      in if r = 0x5C then
           (if fst (nextRune l1) \<noteq> eof \<and> fst (nextRune l1) \<noteq> 0x0A
            then scanString_loop (snd (nextRune l1))
            else (False, snd (nextRune l1)))
         else if r = eof \<or> r = 0x0A then (False, l1)
         else if r = 0x27 then
           (if fst (nextRune l1) \<noteq> 0x27 then (True, backup (snd (nextRune l1)))
            else scanString_loop (snd (nextRune l1)))
         else scanString_loop l1)"
  by pat_completeness auto
termination
proof (relation "measure (\<lambda>l. length (input l) - pos l)")
  show "wf (measure (\<lambda>l. length (input l) - pos l))" by simp
next
  fix l :: lexer and r :: rune and l1 :: lexer
  assume r: "r = fst (nextRune l)" and l1: "l1 = snd (nextRune l)" and "r = 0x5C"
  then have "0 \<le> fst (nextRune l)" by simp
  from nextRune_advance [OF this] nextRune_pos_le [of l1] l1
  have "pos l < pos (snd (nextRune l1))" and "pos l < length (input l)" by simp_all
  then show "(snd (nextRune l1), l) \<in> measure (\<lambda>l. length (input l) - pos l)"
    using l1 by simp
next
  fix l :: lexer and r :: rune and l1 :: lexer
  assume r: "r = fst (nextRune l)" and l1: "l1 = snd (nextRune l)" and "r = 0x27"
  then have "0 \<le> fst (nextRune l)" by simp
  from nextRune_advance [OF this] nextRune_pos_le [of l1] l1
  have "pos l < pos (snd (nextRune l1))" and "pos l < length (input l)" by simp_all
  then show "(snd (nextRune l1), l) \<in> measure (\<lambda>l. length (input l) - pos l)"
    using l1 by simp
next
  fix l :: lexer and r :: rune and l1 :: lexer
  assume r: "r = fst (nextRune l)" and l1: "l1 = snd (nextRune l)"
    and "\<not> (r = eof \<or> r = 0x0A)"
  then have "fst (nextRune l) \<noteq> eof" by simp
  then have "0 \<le> fst (nextRune l)"
    using DecodeRuneInString_nonneg by (auto simp: nextRune_def Let_def)
  from nextRune_advance [OF this] l1
  have "pos l < pos l1" and "pos l < length (input l)" by simp_all
  then show "(l1, l) \<in> measure (\<lambda>l. length (input l) - pos l)"
    using l1 by simp
qed

declare scanString_loop.simps [simp del]

definition scanString :: "lexer \<Rightarrow> bool \<times> lexer" where
  "scanString l =
     (let (r, l1) = nextRune l
      in if r \<noteq> 0x27 then (False, backup l1) else scanString_loop l1)"

subsection \<open>The state machine\<close>

definition lexStartStatement :: "env \<Rightarrow> lexer \<Rightarrow> lexer \<times> stateFn option" where
  "lexStartStatement E l =
     (let l1 = skipWhitespace l;
          (r, l2) = nextRune l1
      in if r = eof then errorf E l2 ''not finished statement'' []
         else if r = 0x73 \<or> r = 0x53 then (backup l2, Some SelectKeyword)
         else errorf E l2 ''unrecognized character at start of statement: %#U''
                [ArgRune r])"

text \<open>
  The loop of the function \<open>createLexKeyword\<close> returns, over the runes \<open>lower\<close> from
  position \<open>index\<close> on: the scanner after the loop, or the result of \<open>errorf\<close>.
\<close>

fun matchKeyword ::
  "env \<Rightarrow> string \<Rightarrow> rune list \<Rightarrow> rune list \<Rightarrow> nat \<Rightarrow> lexer
     \<Rightarrow> (lexer \<times> stateFn option) + lexer" where
  "matchKeyword E keyword [] upper index l = Inr l"
| "matchKeyword E keyword (lowerCaseRune # rest) upper index l =
     (let upperCaseRune = upper ! index;
          (r, l1) = nextRune l
      in if \<not> (r = lowerCaseRune \<or> r = upperCaseRune)
         then Inl (errorf E l1 ''expected %c or %c at pos %v in keyword %v, but got <%c>''
                     [ArgRune lowerCaseRune, ArgRune upperCaseRune, ArgInt (int index),
                      ArgString keyword, ArgRune r])
         else matchKeyword E keyword rest upper (index + 1) l1)"

definition createLexKeyword ::
  "env \<Rightarrow> string \<Rightarrow> itemType \<Rightarrow> stateFn \<Rightarrow> lexer \<Rightarrow> lexer \<times> stateFn option" where
  "createLexKeyword E keyword it nextAction l =
     (let lower = runes (ToLower keyword);
          upper = runes (ToUpper keyword);
          l1 = skipWhitespace l
      in case matchKeyword E keyword lower upper 0 l1 of
           Inl err \<Rightarrow> err
         | Inr l2 \<Rightarrow> (emit l2 it, Some nextAction))"

definition lexSelectKeyword :: "env \<Rightarrow> lexer \<Rightarrow> lexer \<times> stateFn option" where
  "lexSelectKeyword E = createLexKeyword E ''select'' itemSelect ValueExprList"

definition lexFromKeyword :: "env \<Rightarrow> lexer \<Rightarrow> lexer \<times> stateFn option" where
  "lexFromKeyword E = createLexKeyword E ''from'' itemFrom FromTableName"

text \<open>
  \<open>lexValueExprList\<close>: the first switch gives the scanner after one value expression,
  or the result of \<open>errorf\<close>; the second switch follows.
\<close>

definition lexValueExpr :: "env \<Rightarrow> lexer \<Rightarrow> (lexer \<times> stateFn option) + lexer" where
  "lexValueExpr E l =
     (let l1 = skipWhitespace l;
          (r, l2) = nextRune l1
      in if r = 0x2A then Inr (emit l2 itemStar)
         else if r = 0x27 then
           (let (ok, l3) = scanString (backup l2)
            in if \<not> ok
               then Inl (errorf E l3 ''bad string: %q''
                           [ArgString (slice (input l3) (start l3) (pos l3))])
               else Inr (emit l3 itemString))
         else if r = 0x2B \<or> r = 0x2D \<or> (0x30 \<le> r \<and> r \<le> 0x39) then
           (let (ok, l3) = scanNumber E (backup l2)
            in if \<not> ok
               then Inl (errorf E l3 ''bad number: %q''
                           [ArgString (slice (input l3) (start l3) (pos l3))])
               else Inr (emit l3 itemNumber))
         else if isAlpha E r then
           (let (ok, l3) = scanIdentifier E (backup l2)
            in if \<not> ok
               then Inl (errorf E l3 ''bad identifier: %q''
                           [ArgString (slice (input l3) (start l3) (pos l3))])
               else Inr (emit l3 itemIdentifier))
         else Inl (errorf E l2 ''unrecognized character at value exrt: %#U'' [ArgRune r]))"

definition lexValueExprList :: "env \<Rightarrow> lexer \<Rightarrow> lexer \<times> stateFn option" where
  "lexValueExprList E l =
     (case lexValueExpr E l of
        Inl err \<Rightarrow> err
      | Inr l1 \<Rightarrow>
          let l2 = skipWhitespace l1;
              (r, l3) = nextRune l2
          in if r = 0x2C then (emit l3 itemComma, Some ValueExprList)
             else if r = 0x66 \<or> r = 0x46 then (backup l3, Some FromKeyword)
             else errorf E l3 ''unrecognized character after value expr: %#U''
                    [ArgRune r])"

definition lexFromTableName :: "env \<Rightarrow> lexer \<Rightarrow> lexer \<times> stateFn option" where
  "lexFromTableName E l =
     (let l1 = skipWhitespace l;
          (ok, l2) = scanIdentifier E l1
      in if \<not> ok
         then errorf E l2 ''bad identifier: %q''
                [ArgString (slice (input l2) (start l2) (pos l2))]
         else (emit l2 itemIdentifier, Some EndOfStatement))"

definition lexEndOfStatement :: "env \<Rightarrow> lexer \<Rightarrow> lexer \<times> stateFn option" where
  "lexEndOfStatement E l =
     (let l1 = skipWhitespace l;
          (ok, l2) = accept '';'' l1
      in if ok then (emit l2 itemEOF, None)
         else errorf E l2 ''unterminated statement'' [])"

text \<open>Calling a state function: \<open>state(l)\<close> in \<open>run\<close>.\<close>

fun call :: "env \<Rightarrow> stateFn \<Rightarrow> lexer \<Rightarrow> lexer \<times> stateFn option" where
  "call E StartStatement l = lexStartStatement E l"
| "call E SelectKeyword l = lexSelectKeyword E l"
| "call E ValueExprList l = lexValueExprList E l"
| "call E FromKeyword l = lexFromKeyword E l"
| "call E FromTableName l = lexFromTableName E l"
| "call E EndOfStatement l = lexEndOfStatement E l"

subsection \<open>Properties of the cursor\<close>

lemma nextRune_width_irrelevant [simp]: "nextRune (l\<lparr>width := w\<rparr>) = nextRune l"
  by (simp add: nextRune_def Let_def)

lemma DecodeRuneInString_newline:
  assumes "s \<noteq> []"
  shows "fst (DecodeRuneInString s) = 0x0A \<longleftrightarrow> hd s = CHR 0x0A"
proof (cases "(of_char (hd s) :: nat) < 128")
  case True
  have "(of_char (hd s) :: nat) = 10 \<longleftrightarrow> hd s = CHR 0x0A"
    using of_char_eq_iff [of "hd s" "CHR 0x0A", where ?'a = nat] by simp
  with DecodeRuneInString_ascii [OF assms True] show ?thesis by simp
next
  case False
  then have "hd s \<noteq> CHR 0x0A" by auto
  with DecodeRuneInString_non_ascii [OF assms False] show ?thesis by simp
qed

lemma backup_nextRune: "backup (snd (nextRune l)) = l\<lparr>width := width (snd (nextRune l))\<rparr>"
proof (cases "length (input l) \<le> pos l")
  case True
  then show ?thesis by (simp add: nextRune_def backup_def)
next
  case False
  then have ne: "drop (pos l) (input l) \<noteq> []" by simp
  have hd: "hd (drop (pos l) (input l)) = input l ! pos l"
    using False by (simp add: hd_drop_conv_nth)
  show ?thesis
  proof (cases "hd (drop (pos l) (input l)) = CHR 0x0A")
    case True
    then have "(of_char (hd (drop (pos l) (input l))) :: nat) < 128" by simp
    from DecodeRuneInString_ascii [OF ne this] True hd False show ?thesis
      by (simp add: nextRune_def backup_def Let_def)
  next
    case nl: False
    with DecodeRuneInString_newline [OF ne] hd False show ?thesis
      by (simp add: nextRune_def backup_def Let_def)
  qed
qed

lemma peek_eq: "peek l = (fst (nextRune l), l\<lparr>width := width (snd (nextRune l))\<rparr>)"
  by (simp add: peek_def case_prod_beta backup_nextRune)

lemma accept_eq:
  "accept valid l =
     (if ContainsRune valid (fst (nextRune l)) then (True, snd (nextRune l))
      else (False, l\<lparr>width := width (snd (nextRune l))\<rparr>))"
  by (simp add: accept_def case_prod_beta backup_nextRune)

definition adv :: "lexer \<Rightarrow> lexer \<Rightarrow> bool" where
  "adv l l' = (input l' = input l \<and> name l' = name l \<and> items l' = items l
      \<and> start l' = start l \<and> startLine l' = startLine l
      \<and> pos l \<le> pos l' \<and> pos l' \<le> max (pos l) (length (input l)))"

lemma adv_refl [simp]: "adv l l"
  by (simp add: adv_def)

lemma adv_trans: "adv l l1 \<Longrightarrow> adv l1 l2 \<Longrightarrow> adv l l2"
  by (auto simp: adv_def)

lemma adv_width [simp]: "adv l (l'\<lparr>width := w\<rparr>) = adv l l'"
  by (simp add: adv_def)

lemma nextRune_adv: "adv l (snd (nextRune l))"
proof (cases "length (input l) \<le> pos l")
  case True
  then show ?thesis by (simp add: nextRune_def adv_def)
next
  case False
  then have "drop (pos l) (input l) \<noteq> []" by simp
  from DecodeRuneInString_width [OF this] False show ?thesis
    by (auto simp add: nextRune_def adv_def Let_def)
qed

lemma accept_adv: "adv l (snd (accept valid l))"
  by (simp add: accept_eq nextRune_adv)

lemma peek_adv: "adv l (snd (peek l))"
  by (simp add: peek_eq)

lemma acceptRun_loop_char:
  "\<exists>l0. acceptRun_loop valid l = snd (nextRune l0) \<and> adv l l0
        \<and> \<not> ContainsRune valid (fst (nextRune l0))"
proof (induction valid l rule: acceptRun_loop.induct)
  case (1 valid l)
  show ?case
  proof (cases "ContainsRune valid (fst (nextRune l))")
    case True
    from "1.IH" [OF True] obtain l0 where
      l0: "acceptRun_loop valid (snd (nextRune l)) = snd (nextRune l0)"
        "adv (snd (nextRune l)) l0" "\<not> ContainsRune valid (fst (nextRune l0))"
      by blast
    from adv_trans [OF nextRune_adv l0(2)] l0 True show ?thesis
      by (subst acceptRun_loop.simps) auto
  next
    case False
    then show ?thesis
      by (subst acceptRun_loop.simps) (auto intro: exI [of _ l])
  qed
qed

lemma acceptRun_char:
  "\<exists>l0 w. acceptRun valid l = l0\<lparr>width := w\<rparr> \<and> adv l l0
        \<and> \<not> ContainsRune valid (fst (nextRune l0))"
proof -
  from acceptRun_loop_char [of valid l] obtain l0 where
    l0: "acceptRun_loop valid l = snd (nextRune l0)" "adv l l0"
      "\<not> ContainsRune valid (fst (nextRune l0))"
    by blast
  then have "acceptRun valid l = l0\<lparr>width := width (snd (nextRune l0))\<rparr>"
    by (simp add: acceptRun_def backup_nextRune)
  with l0 show ?thesis by blast
qed

lemma acceptRun_adv: "adv l (acceptRun valid l)"
  using acceptRun_char [of valid l] by auto

lemma acceptRun_stops: "\<not> ContainsRune valid (fst (nextRune (acceptRun valid l)))"
  using acceptRun_char [of valid l] by auto


lemma adv_nextRune_I: "adv l l1 \<Longrightarrow> adv l (snd (nextRune l1))"
  by (rule adv_trans [OF _ nextRune_adv])

lemma adv_accept_I: "adv l l1 \<Longrightarrow> adv l (snd (accept valid l1))"
  by (rule adv_trans [OF _ accept_adv])

lemma adv_acceptRun_I: "adv l l1 \<Longrightarrow> adv l (acceptRun valid l1)"
  by (rule adv_trans [OF _ acceptRun_adv])

lemma adv_peek_I: "adv l l1 \<Longrightarrow> adv l (snd (peek l1))"
  by (rule adv_trans [OF _ peek_adv])

lemmas adv_intros = adv_nextRune_I adv_accept_I adv_acceptRun_I adv_peek_I

subsection \<open>The sub-scanners only move the cursor forward\<close>

text \<open>
  For the proofs, \<open>scanNumber\<close> is cut into its stages: the optional sign, the base
  prefix (\<open>numBase\<close>), the digits, and the rest (\<open>numTail\<close>).
\<close>

definition numBase :: "lexer \<Rightarrow> string \<times> lexer" where
  "numBase l1 =
     (let digits0 = ''0123456789_'';
          (zero, l2) = accept ''0'' l1
      in if zero then
               let (hex, m1) = accept ''xX'' l2 in
               if hex then (''0123456789abcdefABCDEF_'', m1)
               else
                 let (oct, m2) = accept ''oO'' m1 in
                 if oct then (''01234567_'', m2)
                 else
                   let (bin, m3) = accept ''bB'' m2 in
                   if bin then (''01_'', m3) else (digits0, m3)
             else (digits0, l2))"

definition numTail :: "env \<Rightarrow> string \<Rightarrow> lexer \<Rightarrow> bool \<times> lexer" where
  "numTail E digits l4 =
     (let (dot, l5) = accept ''.'' l4;
          l6 = (if dot then acceptRun digits l5 else l5);
          l7 = (if length digits = 10 + 1
                then let (e, m) = accept ''eE'' l6
                     in if e then acceptRun ''0123456789_'' (snd (accept ''+-'' m)) else m
                else l6);
          l8 = (if length digits = 16 + 6 + 1
                then let (p, m) = accept ''pP'' l7
                     in if p then acceptRun ''0123456789_'' (snd (accept ''+-'' m)) else m
                else l7);
          l9 = snd (accept ''i'' l8);
          (r, l10) = peek l9
      in if isAlphaNumeric E r then (False, snd (nextRune l10)) else (True, l10))"

lemma scanNumber_staged:
  "scanNumber E l =
     (let l1 = snd (accept ''+-'' l);
          (digits, l3) = numBase l1
      in numTail E digits (acceptRun digits l3))"
  by (simp only: scanNumber_def numBase_def numTail_def Let_def case_prod_beta)


lemma numBase_adv: "adv l (snd (numBase l))"
  by (auto simp: numBase_def Let_def case_prod_beta intro!: adv_intros)

lemma numTail_adv: "adv l (snd (numTail E digits l))"
  by (auto simp: numTail_def Let_def case_prod_beta intro!: adv_intros)

lemma scanString_loop_adv: "adv l (snd (scanString_loop l))"
proof (induction l rule: scanString_loop.induct)
  case (1 l)
  note IH = "1.IH" [OF refl refl]
  let ?r = "fst (nextRune l)" and ?l1 = "snd (nextRune l)"
  let ?r2 = "fst (nextRune ?l1)" and ?l2 = "snd (nextRune ?l1)"
  have a1: "adv l ?l1" by (rule nextRune_adv)
  have a2: "adv l ?l2" by (intro adv_intros) simp
  consider (esc) "?r = 0x5C" "?r2 \<noteq> eof \<and> ?r2 \<noteq> 0x0A"
    | (badesc) "?r = 0x5C" "\<not> (?r2 \<noteq> eof \<and> ?r2 \<noteq> 0x0A)"
    | (stop) "?r \<noteq> 0x5C" "?r = eof \<or> ?r = 0x0A"
    | (close) "?r \<noteq> 0x5C" "\<not> (?r = eof \<or> ?r = 0x0A)" "?r = 0x27" "?r2 \<noteq> 0x27"
    | (quote) "?r \<noteq> 0x5C" "\<not> (?r = eof \<or> ?r = 0x0A)" "?r = 0x27" "\<not> ?r2 \<noteq> 0x27"
    | (other) "?r \<noteq> 0x5C" "\<not> (?r = eof \<or> ?r = 0x0A)" "?r \<noteq> 0x27"
    by blast
  then show ?case
  proof cases
    case esc
    from adv_trans [OF a2 IH(1) [OF esc]] esc show ?thesis
      by (subst scanString_loop.simps) (simp add: Let_def)
  next
    case badesc
    with a2 show ?thesis
      by (subst scanString_loop.simps) (auto simp add: Let_def)
  next
    case stop
    with a1 show ?thesis
      by (subst scanString_loop.simps) (simp add: Let_def)
  next
    case close
    with a1 show ?thesis
      by (subst scanString_loop.simps) (simp add: Let_def backup_nextRune)
  next
    case quote
    from adv_trans [OF a2 IH(2) [OF quote(1,2,3)]] quote show ?thesis
      by (subst scanString_loop.simps) (simp add: Let_def)
  next
    case other
    from adv_trans [OF a1 IH(3) [OF other]] other show ?thesis
      by (subst scanString_loop.simps) (simp add: Let_def)
  qed
qed

lemma scanString_adv: "adv l (snd (scanString l))"
  using adv_trans [OF nextRune_adv scanString_loop_adv]
  by (auto simp: scanString_def case_prod_beta backup_nextRune)

lemma scanNumber_adv: "adv l (snd (scanNumber E l))"
  by (auto simp: scanNumber_staged Let_def case_prod_beta
      intro!: adv_trans [OF _ numTail_adv] adv_acceptRun_I adv_trans [OF _ numBase_adv] adv_accept_I)

lemma scanIdentifier_adv: "adv l (snd (scanIdentifier E l))"
  by (auto simp: scanIdentifier_def Let_def case_prod_beta intro!: adv_intros)

subsection \<open>Every state function ends the scan or moves on\<close>

definition mono :: "lexer \<Rightarrow> lexer \<Rightarrow> bool" where
  "mono l l' = (input l' = input l \<and> pos l \<le> pos l'
      \<and> pos l' \<le> max (pos l) (length (input l)))"

lemma mono_refl [simp]: "mono l l"
  by (simp add: mono_def)

lemma mono_trans: "mono l l1 \<Longrightarrow> mono l1 l2 \<Longrightarrow> mono l l2"
  by (auto simp: mono_def)

lemma adv_mono: "adv l l' \<Longrightarrow> mono l l'"
  by (simp add: adv_def mono_def)

lemma mono_emit [simp]: "mono l (emit l1 t) = mono l l1"
  by (simp add: mono_def emit_def Let_def)

lemma mono_width [simp]: "mono l (l1\<lparr>width := w\<rparr>) = mono l l1"
  by (simp add: mono_def)

lemma skipWhitespace_mono: "mono l (skipWhitespace l)"
  using adv_mono [OF acceptRun_adv [of l spaceChars]]
  by (simp add: skipWhitespace_def Let_def mono_def)

lemma errorf_None [simp]: "snd (errorf E l format args) = None"
  by (simp add: errorf_def)

lemma matchKeyword_adv:
  "matchKeyword E keyword lower upper index l = Inr l2 \<Longrightarrow> adv l l2"
proof (induction lower arbitrary: index l)
  case Nil
  then show ?case by simp
next
  case (Cons a lower)
  then show ?case
    by (auto simp: Let_def case_prod_beta split: if_splits
        intro: adv_trans [OF nextRune_adv])
qed

lemma matchKeyword_Inl:
  "matchKeyword E keyword lower upper index l = Inl x \<Longrightarrow> snd x = None"
  by (induction lower arbitrary: index l)
     (auto simp: Let_def case_prod_beta split: if_splits)

lemma createLexKeyword_next:
  assumes "createLexKeyword E keyword it nextAction l = (l', Some st')"
  shows "st' = nextAction \<and> mono l l'"
proof (cases "matchKeyword E keyword (runes (ToLower keyword)) (runes (ToUpper keyword)) 0
                (skipWhitespace l)")
  case (Inl x)
  with assms matchKeyword_Inl [OF Inl] show ?thesis
    by (simp add: createLexKeyword_def Let_def)
next
  case (Inr l2)
  from adv_mono [OF matchKeyword_adv [OF Inr]] skipWhitespace_mono [of l]
  have "mono l l2" by (rule mono_trans [rotated])
  with assms Inr show ?thesis
    by (auto simp add: createLexKeyword_def Let_def)
qed

lemma lexStartStatement_next:
  assumes "lexStartStatement E l = (l', Some st')"
  shows "st' = SelectKeyword"
  using assms
  by (auto simp: lexStartStatement_def Let_def case_prod_beta errorf_def split: if_splits)

lemma lexValueExpr_Inl: "lexValueExpr E l = Inl x \<Longrightarrow> snd x = None"
  by (auto simp: lexValueExpr_def Let_def case_prod_beta split: if_splits)

lemma lexValueExpr_mono:
  assumes "lexValueExpr E l = Inr l1"
  shows "mono l l1"
proof -
  let ?l1 = "skipWhitespace l"
  let ?b = "backup (snd (nextRune ?l1))"
  have b: "mono l ?b"
    using skipWhitespace_mono [of l] by (simp add: backup_nextRune)
  have "mono l (snd (nextRune ?l1))"
    by (rule mono_trans [OF skipWhitespace_mono adv_mono [OF nextRune_adv]])
  moreover have "mono l (snd (scanString ?b))"
    by (rule mono_trans [OF b adv_mono [OF scanString_adv]])
  moreover have "mono l (snd (scanNumber E ?b))"
    by (rule mono_trans [OF b adv_mono [OF scanNumber_adv]])
  moreover have "mono l (snd (scanIdentifier E ?b))"
    by (rule mono_trans [OF b adv_mono [OF scanIdentifier_adv]])
  ultimately show ?thesis
    using assms
    by (auto simp: lexValueExpr_def Let_def case_prod_beta split: if_splits)
qed

lemma lexValueExprList_next:
  assumes "lexValueExprList E l = (l', Some st')"
  shows "st' = FromKeyword \<or>
         (st' = ValueExprList \<and> input l' = input l \<and> pos l < pos l'
            \<and> pos l' \<le> length (input l))"
proof (cases "lexValueExpr E l")
  case (Inl x)
  with assms lexValueExpr_Inl [OF Inl] show ?thesis
    by (simp add: lexValueExprList_def)
next
  case (Inr l1)
  let ?l2 = "skipWhitespace l1"
  have m: "mono l ?l2"
    by (rule mono_trans [OF lexValueExpr_mono [OF Inr] skipWhitespace_mono])
  show ?thesis
  proof (cases "fst (nextRune ?l2) = 0x2C")
    case True
    then have "0 \<le> fst (nextRune ?l2)" by simp
    from nextRune_advance [OF this] m True assms Inr show ?thesis
      by (auto simp: lexValueExprList_def Let_def case_prod_beta mono_def emit_def)
  next
    case False
    with assms Inr show ?thesis
      by (auto simp: lexValueExprList_def Let_def case_prod_beta errorf_def split: if_splits)
  qed
qed

lemma lexFromTableName_next:
  "lexFromTableName E l = (l', Some st') \<Longrightarrow> st' = EndOfStatement"
  by (auto simp: lexFromTableName_def Let_def case_prod_beta errorf_def split: if_splits)

lemma lexEndOfStatement_next [simp]: "snd (lexEndOfStatement E l) = None"
  by (auto simp: lexEndOfStatement_def Let_def case_prod_beta errorf_def)

subsection \<open>Running the state machine\<close>

text \<open>
  \<open>run\<close> calls the state functions until one returns nil; \<open>lex\<close> starts the scan and is
  the state of the scanner when its goroutine has finished. The loop of \<open>run\<close> ends
  because a state function either moves to a state of lower rank, or, from
  \<open>ValueExprList\<close> to itself, has consumed input.
\<close>

fun rank :: "stateFn \<Rightarrow> nat" where
  "rank StartStatement = 5"
| "rank SelectKeyword = 4"
| "rank ValueExprList = 3"
| "rank FromKeyword = 2"
| "rank FromTableName = 1"
| "rank EndOfStatement = 0"

lemma call_decreases:
  assumes "call E st l = (l', Some st')"
  shows "rank st' < rank st \<or>
         (rank st' = rank st \<and> length (input l') - pos l' < length (input l) - pos l)"
proof (cases st)
  case StartStatement
  with assms have "lexStartStatement E l = (l', Some st')" by simp
  from lexStartStatement_next [OF this] StartStatement show ?thesis by simp
next
  case SelectKeyword
  with assms have "createLexKeyword E ''select'' itemSelect ValueExprList l = (l', Some st')"
    by (simp add: lexSelectKeyword_def)
  from createLexKeyword_next [OF this] SelectKeyword show ?thesis by simp
next
  case ValueExprList
  with assms have "lexValueExprList E l = (l', Some st')" by simp
  from lexValueExprList_next [OF this] ValueExprList show ?thesis by auto
next
  case FromKeyword
  with assms have "createLexKeyword E ''from'' itemFrom FromTableName l = (l', Some st')"
    by (simp add: lexFromKeyword_def)
  from createLexKeyword_next [OF this] FromKeyword show ?thesis by simp
next
  case FromTableName
  with assms have "lexFromTableName E l = (l', Some st')" by simp
  from lexFromTableName_next [OF this] FromTableName show ?thesis by simp
next
  case EndOfStatement
  with assms lexEndOfStatement_next [of E l] show ?thesis by simp
qed

function run :: "env \<Rightarrow> stateFn \<Rightarrow> lexer \<Rightarrow> lexer" where
  "run E state l =
     (case snd (call E state l) of
        None \<Rightarrow> fst (call E state l)
      | Some state' \<Rightarrow> run E state' (fst (call E state l)))"
  by pat_completeness auto
termination
proof (relation "inv_image (less_than <*lex*> less_than)
                   (\<lambda>(E, st, l). (rank st, length (input l) - pos l))")
  show "wf (inv_image (less_than <*lex*> less_than)
              (\<lambda>(E, st, l). (rank st, length (input l) - pos l)))"
    by (intro wf_inv_image wf_lex_prod wf_less_than)
next
  fix E :: env and state :: stateFn and l :: lexer and state' :: stateFn
  assume "snd (call E state l) = Some state'"
  then have "call E state l = (fst (call E state l), Some state')"
    by (simp add: prod_eq_iff)
  from call_decreases [OF this]
  show "((E, state', fst (call E state l)), (E, state, l))
          \<in> inv_image (less_than <*lex*> less_than)
               (\<lambda>(E, st, l). (rank st, length (input l) - pos l))"
    by auto
qed

declare run.simps [simp del]

definition lex :: "env \<Rightarrow> string \<Rightarrow> string \<Rightarrow> lexer" where
  "lex E name' input' =
     run E StartStatement
       \<lparr>name = name', input = input', pos = 0, start = 0, width = 0, items = [],
        line = 1, startLine = 1\<rparr>"

subsection \<open>The items a scan sends\<close>

lemma adv_frame:
  assumes "adv l l'"
  shows "items l' = items l" and "start l' = start l" and "startLine l' = startLine l"
    and "input l' = input l"
  using assms by (simp_all add: adv_def)

lemmas frame_simps [simp] =
  adv_frame [OF nextRune_adv] adv_frame [OF accept_adv] adv_frame [OF peek_adv]
  adv_frame [OF acceptRun_adv] adv_frame [OF scanIdentifier_adv]
  adv_frame [OF scanNumber_adv] adv_frame [OF scanString_adv]

lemma skipWhitespace_frame [simp]:
  "items (skipWhitespace l) = items l" "startLine (skipWhitespace l) = startLine l"
  "input (skipWhitespace l) = input l" "start (skipWhitespace l) = pos (skipWhitespace l)"
  by (simp_all add: skipWhitespace_def Let_def)

definition nonterm :: "item \<Rightarrow> bool" where
  "nonterm t = (typ' t \<noteq> itemEOF \<and> typ' t \<noteq> itemError)"

text \<open>What one call of a state function sends.\<close>

definition sent :: "env \<Rightarrow> lexer \<Rightarrow> lexer \<times> stateFn option \<Rightarrow> bool" where
  "sent E l r =
     (\<exists>new. items (fst r) = items l @ new \<and>
        (if snd r = None
         then new \<noteq> [] \<and> list_all nonterm (butlast new) \<and>
              (typ' (last new) = itemEOF \<or>
               typ' (last new) = itemError \<and> item.pos (last new) = start (fst r)
                 \<and> item.line (last new) = startLine (fst r)
                 \<and> (\<exists>format args. val (last new) = Sprintf E format args))
         else list_all nonterm new))"

lemma sent_errorf:
  assumes "items l1 = items l @ new" and "list_all nonterm new"
  shows "sent E l (errorf E l1 format args)"
  unfolding sent_def
  by (rule exI [of _ "new @ [\<lparr>typ' = itemError, pos = start l1, val = Sprintf E format args,
        line = startLine l1\<rparr>]"]) (use assms in \<open>auto simp: errorf_def\<close>)

lemma sent_emit:
  assumes "items l1 = items l @ new" and "list_all nonterm new"
    and "t \<noteq> itemEOF" and "t \<noteq> itemError"
  shows "sent E l (emit l1 t, Some st)"
  unfolding sent_def
  by (rule exI [of _ "new @ [\<lparr>typ' = t, pos = start l1,
        val = slice (input l1) (start l1) (pos l1), line = startLine l1\<rparr>]"])
     (use assms in \<open>auto simp: emit_def Let_def nonterm_def\<close>)

lemma sent_emit_EOF:
  assumes "items l1 = items l @ new" and "list_all nonterm new"
  shows "sent E l (emit l1 itemEOF, None)"
  unfolding sent_def
  by (rule exI [of _ "new @ [\<lparr>typ' = itemEOF, pos = start l1,
        val = slice (input l1) (start l1) (pos l1), line = startLine l1\<rparr>]"])
     (use assms in \<open>auto simp: emit_def Let_def\<close>)

lemma sent_same:
  assumes "items l1 = items l @ new" and "list_all nonterm new"
  shows "sent E l (l1, Some st)"
  unfolding sent_def using assms by auto

lemma sent_lexStartStatement: "sent E l (lexStartStatement E l)"
  by (auto simp: lexStartStatement_def Let_def case_prod_beta backup_nextRune
      intro!: sent_errorf [where new = "[]"] sent_same [where new = "[]"])

lemma sent_lexEndOfStatement: "sent E l (lexEndOfStatement E l)"
  by (auto simp: lexEndOfStatement_def Let_def case_prod_beta
      intro!: sent_errorf [where new = "[]"] sent_emit_EOF [where new = "[]"])

lemma sent_lexFromTableName: "sent E l (lexFromTableName E l)"
  by (auto simp: lexFromTableName_def Let_def case_prod_beta
      intro!: sent_errorf [where new = "[]"] sent_emit [where new = "[]"])


lemma matchKeyword_sent:
  "matchKeyword E keyword lower upper index l1 = Inl x \<Longrightarrow> items l1 = items l
     \<Longrightarrow> sent E l x"
proof (induction lower arbitrary: index l1)
  case Nil
  then show ?case by simp
next
  case (Cons a lower)
  show ?case
  proof (cases "fst (nextRune l1) = a \<or> fst (nextRune l1) = upper ! index")
    case True
    with Cons.prems have "matchKeyword E keyword lower upper (index + 1) (snd (nextRune l1)) = Inl x"
      by (auto simp: Let_def case_prod_beta)
    from Cons.IH [OF this] Cons.prems(2) show ?thesis by simp
  next
    case False
    with Cons.prems show ?thesis
      by (auto simp: Let_def case_prod_beta intro!: sent_errorf [where new = "[]"])
  qed
qed

lemma sent_createLexKeyword:
  assumes "it \<noteq> itemEOF" and "it \<noteq> itemError"
  shows "sent E l (createLexKeyword E keyword it nextAction l)"
proof (cases "matchKeyword E keyword (runes (ToLower keyword)) (runes (ToUpper keyword)) 0
                (skipWhitespace l)")
  case (Inl x)
  from matchKeyword_sent [OF Inl, of l] Inl show ?thesis
    by (simp add: createLexKeyword_def Let_def)
next
  case (Inr l2)
  from adv_frame(1) [OF matchKeyword_adv [OF Inr]] Inr assms show ?thesis
    by (auto simp: createLexKeyword_def Let_def intro!: sent_emit [where new = "[]"])
qed

lemma lexValueExpr_sent_Inl: "lexValueExpr E l = Inl x \<Longrightarrow> sent E l x"
  by (auto simp: lexValueExpr_def Let_def case_prod_beta backup_nextRune
      split: if_splits intro!: sent_errorf [where new = "[]"])

lemma lexValueExpr_items:
  "lexValueExpr E l = Inr l1 \<Longrightarrow> \<exists>t. items l1 = items l @ [t] \<and> nonterm t"
  by (auto simp: lexValueExpr_def Let_def case_prod_beta backup_nextRune emit_def nonterm_def
      split: if_splits)

lemma sent_lexValueExprList: "sent E l (lexValueExprList E l)"
proof (cases "lexValueExpr E l")
  case (Inl x)
  with lexValueExpr_sent_Inl [OF Inl] show ?thesis by (simp add: lexValueExprList_def)
next
  case (Inr l1)
  from lexValueExpr_items [OF Inr] obtain t where t: "items l1 = items l @ [t]" "nonterm t"
    by blast
  let ?l2 = "skipWhitespace l1"
  let ?r = "fst (nextRune ?l2)" and ?l3 = "snd (nextRune ?l2)"
  have i3: "items ?l3 = items l @ [t]" using t by simp
  have i2: "items (backup ?l3) = items l @ [t]" using t by (simp add: backup_nextRune)
  consider (c1) "?r = 0x2C" | (c2) "?r \<noteq> 0x2C" "?r = 0x66 \<or> ?r = 0x46"
    | (c3) "?r \<noteq> 0x2C" "\<not> (?r = 0x66 \<or> ?r = 0x46)"
    by blast
  then show ?thesis
  proof cases
    case c1
    with Inr sent_emit [OF i3, of itemComma E ValueExprList] t(2) show ?thesis
      by (simp add: lexValueExprList_def Let_def case_prod_beta)
  next
    case c2
    with Inr sent_same [OF i2, of E FromKeyword] t(2) show ?thesis
      by (auto simp add: lexValueExprList_def Let_def case_prod_beta)
  next
    case c3
    with Inr sent_errorf [OF i3, of E] t(2) show ?thesis
      by (simp add: lexValueExprList_def Let_def case_prod_beta)
  qed
qed

lemma sent_call: "sent E l (call E st l)"
  by (cases st)
     (simp_all add: sent_lexStartStatement sent_createLexKeyword sent_lexValueExprList
        sent_lexFromTableName sent_lexEndOfStatement lexSelectKeyword_def lexFromKeyword_def)

text \<open>What a whole run sends: items that are neither \<open>itemEOF\<close> nor \<open>itemError\<close>, then one
  that is.\<close>

definition stream_ok :: "env \<Rightarrow> lexer \<Rightarrow> item list \<Rightarrow> bool" where
  "stream_ok E l' new =
     (new \<noteq> [] \<and> list_all nonterm (butlast new) \<and>
      (typ' (last new) = itemEOF \<or>
       typ' (last new) = itemError \<and> item.pos (last new) = start l'
         \<and> item.line (last new) = startLine l'
         \<and> (\<exists>format args. val (last new) = Sprintf E format args)))"

lemma run_sent: "\<exists>new. items (run E st l) = items l @ new \<and> stream_ok E (run E st l) new"
proof (induction E st l rule: run.induct)
  case (1 E state l)
  from sent_call [of E l state] obtain new where
    new: "items (fst (call E state l)) = items l @ new"
      "if snd (call E state l) = None
       then stream_ok E (fst (call E state l)) new else list_all nonterm new"
    unfolding sent_def stream_ok_def by blast
  show ?case
  proof (cases "snd (call E state l)")
    case None
    with new show ?thesis
      by (subst (1 2) run.simps) auto
  next
    case (Some state')
    from "1.IH" [OF Some] obtain new' where
      new': "items (run E state' (fst (call E state l))) = items (fst (call E state l)) @ new'"
        "stream_ok E (run E state' (fst (call E state l))) new'"
      by blast
    have "stream_ok E (run E state' (fst (call E state l))) (new @ new')"
      using new(2) new'(2) Some
      by (auto simp: stream_ok_def butlast_append)
    with new(1) new'(1) Some show ?thesis
      by (subst (1 2) run.simps) auto
  qed
qed

lemma lex_stream: "stream_ok E (lex E name' input') (items (lex E name' input'))"
  using run_sent [of E StartStatement
      "\<lparr>name = name', input = input', pos = 0, start = 0, width = 0, items = [],
        line = 1, startLine = 1\<rparr>"]
  by (simp add: lex_def)

text \<open>
  The loop of \<open>run\<close> with a bound on the number of state functions it calls: \<open>None\<close>
  when the bound is reached before a state function returns nil.
\<close>

fun runN :: "env \<Rightarrow> nat \<Rightarrow> stateFn \<Rightarrow> lexer \<Rightarrow> lexer option" where
  "runN E 0 state l = None"
| "runN E (Suc n) state l =
     (case snd (call E state l) of
        None \<Rightarrow> Some (fst (call E state l))
      | Some state' \<Rightarrow> runN E n state' (fst (call E state l)))"

lemma run_runN: "\<exists>n. runN E n st l = Some (run E st l)"
proof (induction E st l rule: run.induct)
  case (1 E state l)
  show ?case
  proof (cases "snd (call E state l)")
    case None
    then have "runN E (Suc 0) state l = Some (run E state l)"
      by (subst run.simps) simp
    then show ?thesis by blast
  next
    case (Some state')
    from "1.IH" [OF Some] obtain n where
      "runN E n state' (fst (call E state l)) = Some (run E state' (fst (call E state l)))"
      by blast
    with Some have "runN E (Suc n) state l = Some (run E state l)"
      by (subst run.simps) simp
    then show ?thesis by blast
  qed
qed

subsection \<open>Running the scanner on a given input\<close>

text \<open>
  All the sets of runes the scanner tests membership in are ASCII strings; there
  \<open>ContainsRune\<close> is membership of a byte.
\<close>

definition ascii :: "string \<Rightarrow> bool" where
  "ascii s = list_all (\<lambda>c. (of_char c :: nat) < 128) s"

lemma runes_ascii: "ascii s \<Longrightarrow> runes s = map (\<lambda>c. int (of_char c)) s"
proof (induction s)
  case Nil
  then show ?case by (simp add: runes.simps)
next
  case (Cons c s)
  then have "DecodeRuneInString (c # s) = (int (of_char c), 1)"
    using DecodeRuneInString_ascii [of "c # s"] by (simp add: ascii_def)
  with Cons show ?case
    by (subst runes.simps) (simp add: ascii_def)
qed

lemma ContainsRune_ascii:
  "ascii valid \<Longrightarrow> ContainsRune valid r = (r \<in> set (map (\<lambda>c. int (of_char c)) valid))"
  by (simp add: ContainsRune_def runes_ascii)

lemma ContainsRune_literals:
  "ContainsRune ''+-'' r = (r = 43 \<or> r = 45)"
  "ContainsRune ''0'' r = (r = 48)"
  "ContainsRune ''xX'' r = (r = 120 \<or> r = 88)"
  "ContainsRune ''oO'' r = (r = 111 \<or> r = 79)"
  "ContainsRune ''bB'' r = (r = 98 \<or> r = 66)"
  "ContainsRune ''.'' r = (r = 46)"
  "ContainsRune ''eE'' r = (r = 101 \<or> r = 69)"
  "ContainsRune ''pP'' r = (r = 112 \<or> r = 80)"
  "ContainsRune ''i'' r = (r = 105)"
  "ContainsRune '';'' r = (r = 59)"
  "ContainsRune spaceChars r = (r = 32 \<or> r = 9 \<or> r = 13 \<or> r = 10)"
  by (simp_all add: ContainsRune_ascii ascii_def spaceChars_def)

lemma ContainsRune_alphabets:
  "ContainsRune ''0123456789_'' r =
     (r \<in> set (map (\<lambda>c. int (of_char c)) ''0123456789_''))"
  "ContainsRune ''0123456789abcdefABCDEF_'' r =
     (r \<in> set (map (\<lambda>c. int (of_char c)) ''0123456789abcdefABCDEF_''))"
  "ContainsRune ''01234567_'' r = (r \<in> set (map (\<lambda>c. int (of_char c)) ''01234567_''))"
  "ContainsRune ''01_'' r = (r \<in> set (map (\<lambda>c. int (of_char c)) ''01_''))"
  "ContainsRune ''abcdefghijklmnopqrstuvwxyzABCDEFGHIJKLMNOPQRSTUVWXYZ_'' r =
     (r \<in> set (map (\<lambda>c. int (of_char c))
                 ''abcdefghijklmnopqrstuvwxyzABCDEFGHIJKLMNOPQRSTUVWXYZ_''))"
  "ContainsRune ''abcdefghijklmnopqrstuvwxyzABCDEFGHIJKLMNOPQRSTUVWXYZ_0123456789'' r =
     (r \<in> set (map (\<lambda>c. int (of_char c))
                 ''abcdefghijklmnopqrstuvwxyzABCDEFGHIJKLMNOPQRSTUVWXYZ_0123456789''))"
  by (rule ContainsRune_ascii, simp add: ascii_def)+

lemma keyword_runes:
  "runes (ToLower ''select'') = [115, 101, 108, 101, 99, 116]"
  "runes (ToUpper ''select'') = [83, 69, 76, 69, 67, 84]"
  "runes (ToLower ''from'') = [102, 114, 111, 109]"
  "runes (ToUpper ''from'') = [70, 82, 79, 77]"
  by code_simp+

text \<open>
  To run the scanner on a given input, its definitions are unfolded at a scanner state
  that is written out, and a \<open>let\<close> is unfolded once its value is computed.
\<close>

lemmas lexStartStatement_exec = lexStartStatement_def [where l = "\<lparr>name = n, input = i, pos = p, start = s, width = w, items = its, line = ln, startLine = sl\<rparr>" for n i p s w its ln sl]
lemmas createLexKeyword_exec = createLexKeyword_def [where l = "\<lparr>name = n, input = i, pos = p, start = s, width = w, items = its, line = ln, startLine = sl\<rparr>" for n i p s w its ln sl]
lemmas lexValueExprList_exec = lexValueExprList_def [where l = "\<lparr>name = n, input = i, pos = p, start = s, width = w, items = its, line = ln, startLine = sl\<rparr>" for n i p s w its ln sl]
lemmas lexValueExpr_exec = lexValueExpr_def [where l = "\<lparr>name = n, input = i, pos = p, start = s, width = w, items = its, line = ln, startLine = sl\<rparr>" for n i p s w its ln sl]
lemmas lexFromTableName_exec = lexFromTableName_def [where l = "\<lparr>name = n, input = i, pos = p, start = s, width = w, items = its, line = ln, startLine = sl\<rparr>" for n i p s w its ln sl]
lemmas lexEndOfStatement_exec = lexEndOfStatement_def [where l = "\<lparr>name = n, input = i, pos = p, start = s, width = w, items = its, line = ln, startLine = sl\<rparr>" for n i p s w its ln sl]
lemmas scanIdentifier_exec = scanIdentifier_def [where l = "\<lparr>name = n, input = i, pos = p, start = s, width = w, items = its, line = ln, startLine = sl\<rparr>" for n i p s w its ln sl]
lemmas scanNumber_exec = scanNumber_def [where l = "\<lparr>name = n, input = i, pos = p, start = s, width = w, items = its, line = ln, startLine = sl\<rparr>" for n i p s w its ln sl]
lemmas scanString_exec = scanString_def [where l = "\<lparr>name = n, input = i, pos = p, start = s, width = w, items = its, line = ln, startLine = sl\<rparr>" for n i p s w its ln sl]
lemmas skipWhitespace_exec = skipWhitespace_def [where l = "\<lparr>name = n, input = i, pos = p, start = s, width = w, items = its, line = ln, startLine = sl\<rparr>" for n i p s w its ln sl]
lemmas acceptRun_exec = acceptRun_def [where l = "\<lparr>name = n, input = i, pos = p, start = s, width = w, items = its, line = ln, startLine = sl\<rparr>" for n i p s w its ln sl]
lemmas accept_exec = accept_eq [where l = "\<lparr>name = n, input = i, pos = p, start = s, width = w, items = its, line = ln, startLine = sl\<rparr>" for n i p s w its ln sl]
lemmas peek_exec = peek_eq [where l = "\<lparr>name = n, input = i, pos = p, start = s, width = w, items = its, line = ln, startLine = sl\<rparr>" for n i p s w its ln sl]
lemmas backup_exec = backup_def [where l = "\<lparr>name = n, input = i, pos = p, start = s, width = w, items = its, line = ln, startLine = sl\<rparr>" for n i p s w its ln sl]
lemmas nextRune_exec = nextRune_def [where l = "\<lparr>name = n, input = i, pos = p, start = s, width = w, items = its, line = ln, startLine = sl\<rparr>" for n i p s w its ln sl]
lemmas emit_exec = emit_def [where l = "\<lparr>name = n, input = i, pos = p, start = s, width = w, items = its, line = ln, startLine = sl\<rparr>" for n i p s w its ln sl]
lemmas errorf_exec = errorf_def [where l = "\<lparr>name = n, input = i, pos = p, start = s, width = w, items = its, line = ln, startLine = sl\<rparr>" for n i p s w its ln sl]
lemmas acceptRun_loop_simps_exec = acceptRun_loop.simps [where l = "\<lparr>name = n, input = i, pos = p, start = s, width = w, items = its, line = ln, startLine = sl\<rparr>" for n i p s w its ln sl]
lemmas scanString_loop_simps_exec = scanString_loop.simps [where l = "\<lparr>name = n, input = i, pos = p, start = s, width = w, items = its, line = ln, startLine = sl\<rparr>" for n i p s w its ln sl]
lemmas run_simps_exec = run.simps [where l = "\<lparr>name = n, input = i, pos = p, start = s, width = w, items = its, line = ln, startLine = sl\<rparr>" for n i p s w its ln sl]
lemmas matchKeyword_simps2_exec = matchKeyword.simps(2) [where l = "\<lparr>name = n, input = i, pos = p, start = s, width = w, items = its, line = ln, startLine = sl\<rparr>" for n i p s w its ln sl]

lemma Let_exec:
  "\<And>f. Let \<lparr>name = n, input = i, pos = p, start = s, width = w, items = its, line = ln,
      startLine = sl\<rparr> f
    = f \<lparr>name = n, input = i, pos = p, start = s, width = w, items = its, line = ln,
      startLine = sl\<rparr>"
  "\<And>f. Let (a, b) f = f (a, b)"
  "\<And>f. Let [] f = f []"
  "\<And>f. Let (x # xs) f = f (x # xs)"
  "\<And>f. Let True f = f True"
  "\<And>f. Let False f = f False"
  "\<And>f. Let (numeral k :: nat) f = f (numeral k)"
  "\<And>f. Let (numeral k :: int) f = f (numeral k)"
  "\<And>f. Let (- numeral k :: int) f = f (- numeral k)"
  "\<And>f. Let (0 :: nat) f = f 0"
  "\<And>f. Let (0 :: int) f = f 0"
  "\<And>f. Let (1 :: nat) f = f 1"
  "\<And>f. Let (1 :: int) f = f 1"
  "\<And>f. Let (Suc m) f = f (Suc m)"
  by (simp_all add: Let_def)

lemmas exec =
  lex_def lexSelectKeyword_def lexFromKeyword_def call.simps matchKeyword.simps(1)
  lexStartStatement_exec createLexKeyword_exec lexValueExprList_exec lexValueExpr_exec lexFromTableName_exec lexEndOfStatement_exec scanIdentifier_exec scanNumber_exec scanString_exec skipWhitespace_exec acceptRun_exec accept_exec peek_exec backup_exec nextRune_exec emit_exec errorf_exec acceptRun_loop_simps_exec scanString_loop_simps_exec run_simps_exec matchKeyword_simps2_exec
  Let_exec DecodeRuneInString_def slice_def ContainsRune_literals ContainsRune_alphabets
  keyword_runes isAlpha_def isAlphaNumeric_def IsLetter_def IsDigit_def eof_def

text \<open>
  An environment for the examples that must not depend on a parameter: above Latin-1
  nothing is a letter or a digit, and \<open>Sprintf\<close> returns its format string. None of the
  examples reads a rune above Latin-1.
\<close>

definition env0 :: env where
  "env0 = \<lparr>LetterTable = (\<lambda>r. False), DigitTable = (\<lambda>r. False),
            Sprintf = (\<lambda>format args. format)\<rparr>"

subsection \<open>The runes ahead of the cursor\<close>

text \<open>
  \<open>advance n l\<close> is the scanner after \<open>n\<close> calls of \<open>next\<close>, and \<open>runeAt j l\<close> the
  rune that the call after \<open>j\<close> calls returns. \<open>caseMatch keyword j r\<close>: the rune \<open>r\<close>
  is the rune at index \<open>j\<close> of the lower-case or of the upper-case keyword.
\<close>

fun advance :: "nat \<Rightarrow> lexer \<Rightarrow> lexer" where
  "advance 0 l = l"
| "advance (Suc n) l = advance n (snd (nextRune l))"

definition runeAt :: "nat \<Rightarrow> lexer \<Rightarrow> rune" where
  "runeAt j l = fst (nextRune (advance j l))"







subsection \<open>Runs of bytes\<close>

text \<open>
  Where the set of runes is a string of ASCII characters, \<open>accept\<close> and \<open>acceptRun\<close>
  test the bytes of the input one by one.
\<close>

lemma nextRune_nonneg_iff: "0 \<le> fst (nextRune l) \<longleftrightarrow> pos l < length (input l)"
  using DecodeRuneInString_nonneg by (auto simp: nextRune_def Let_def eof_def)

lemma nextRune_byte:
  assumes "pos l < length (input l)" and "(of_char (input l ! pos l) :: nat) < 128"
  shows "fst (nextRune l) = int (of_char (input l ! pos l))"
    and "pos (snd (nextRune l)) = pos l + 1"
proof -
  from assms(1) have ne: "drop (pos l) (input l) \<noteq> []" by simp
  have hd: "hd (drop (pos l) (input l)) = input l ! pos l"
    using assms(1) by (simp add: hd_drop_conv_nth)
  from DecodeRuneInString_ascii [OF ne] assms(2) hd
  have "DecodeRuneInString (drop (pos l) (input l)) = (int (of_char (input l ! pos l)), 1)"
    by simp
  with assms(1) show "fst (nextRune l) = int (of_char (input l ! pos l))"
    and "pos (snd (nextRune l)) = pos l + 1"
    by (simp_all add: nextRune_def Let_def)
qed

lemma nextRune_non_ascii:
  assumes "pos l < length (input l)" and "\<not> (of_char (input l ! pos l) :: nat) < 128"
  shows "128 \<le> fst (nextRune l)"
proof -
  from assms(1) have ne: "drop (pos l) (input l) \<noteq> []" by simp
  have hd: "hd (drop (pos l) (input l)) = input l ! pos l"
    using assms(1) by (simp add: hd_drop_conv_nth)
  from DecodeRuneInString_non_ascii [OF ne] assms hd show ?thesis
    by (simp add: nextRune_def Let_def)
qed

lemma ascii_byte: "ascii V \<Longrightarrow> c \<in> set V \<Longrightarrow> (of_char c :: nat) < 128"
  by (simp add: ascii_def list_all_iff)

lemma ContainsRune_nextRune:
  assumes "ascii V"
  shows "ContainsRune V (fst (nextRune l)) \<longleftrightarrow>
           pos l < length (input l) \<and> input l ! pos l \<in> set V"
proof
  assume c: "ContainsRune V (fst (nextRune l))"
  then obtain c' where c': "c' \<in> set V" "fst (nextRune l) = int (of_char c')"
    using assms by (auto simp: ContainsRune_ascii)
  from ContainsRune_nonneg [OF c] have lt: "pos l < length (input l)"
    by (simp add: nextRune_nonneg_iff)
  have small: "fst (nextRune l) < 128"
    using c' ascii_byte [OF assms c'(1)] by simp
  have a: "(of_char (input l ! pos l) :: nat) < 128"
    using nextRune_non_ascii [OF lt] small by fastforce
  from nextRune_byte(1) [OF lt a] c'(2) have "input l ! pos l = c'" by simp
  with lt c'(1) show "pos l < length (input l) \<and> input l ! pos l \<in> set V" by simp
next
  assume r: "pos l < length (input l) \<and> input l ! pos l \<in> set V"
  then have a: "(of_char (input l ! pos l) :: nat) < 128"
    using ascii_byte [OF assms] by simp
  from nextRune_byte(1) [OF _ a] r assms show "ContainsRune V (fst (nextRune l))"
    by (auto simp: ContainsRune_ascii)
qed

lemma ContainsRune_step:
  assumes "ascii V" and "ContainsRune V (fst (nextRune l))"
  shows "pos (snd (nextRune l)) = pos l + 1" and "pos l < length (input l)"
    and "input l ! pos l \<in> set V"
proof -
  from assms have r: "pos l < length (input l)" "input l ! pos l \<in> set V"
    by (simp_all add: ContainsRune_nextRune)
  then show "pos l < length (input l)" and "input l ! pos l \<in> set V" by simp_all
  from nextRune_byte(2) [OF r(1) ascii_byte [OF assms(1) r(2)]]
  show "pos (snd (nextRune l)) = pos l + 1" .
qed

lemma slice_same [simp]: "slice s p p = []"
  by (simp add: slice_def)



lemma nextRune_cong:
  assumes "input l' = input l" and "pos l' = pos l"
  shows "fst (nextRune l') = fst (nextRune l)"
    and "pos (snd (nextRune l')) = pos (snd (nextRune l))"
  using assms by (simp_all add: nextRune_def Let_def)

text \<open>For a set of ASCII runes, \<open>acceptRun\<close> consumes the longest run of its bytes.\<close>

lemma acceptRun_unfold:
  "acceptRun V l = (if ContainsRune V (fst (nextRune l)) then acceptRun V (snd (nextRune l))
                    else l\<lparr>width := width (snd (nextRune l))\<rparr>)"
  by (subst acceptRun_def, subst acceptRun_loop.simps) (simp add: acceptRun_def backup_nextRune)

lemma acceptRun_takeWhile:
  "ascii V \<Longrightarrow> pos (acceptRun V l)
     = pos l + length (takeWhile (\<lambda>c. c \<in> set V) (drop (pos l) (input l)))"
proof (induction V l rule: acceptRun_loop.induct)
  case (1 valid l)
  note asc = "1.prems"
  show ?case
  proof (cases "ContainsRune valid (fst (nextRune l))")
    case True
    note st = ContainsRune_step [OF asc True]
    have d: "drop (pos l) (input l) = input l ! pos l # drop (pos l + 1) (input l)"
      using st(2) by (simp add: Cons_nth_drop_Suc)
    from "1.IH" [OF True asc] st True show ?thesis
      by (subst acceptRun_unfold) (simp add: d)
  next
    case False
    then have "\<not> (pos l < length (input l) \<and> input l ! pos l \<in> set valid)"
      by (simp add: ContainsRune_nextRune [OF asc])
    then have "takeWhile (\<lambda>c. c \<in> set valid) (drop (pos l) (input l)) = []"
      by (cases "pos l < length (input l)") (simp_all add: takeWhile_eq_Nil_iff hd_drop_conv_nth)
    with False show ?thesis
      by (subst acceptRun_unfold) simp
  qed
qed



subsection \<open>The identifier sub-scanner on bytes\<close>

text \<open>
  The two local strings of \<open>scanIdentifier\<close>, and the length \<open>identRun l\<close> of the
  longest run of bytes of \<open>charsAndDigits\<close> at the cursor.
\<close>

definition chars :: string where
  "chars = ''abcdefghijklmnopqrstuvwxyzABCDEFGHIJKLMNOPQRSTUVWXYZ_''"

definition charsAndDigits :: string where
  "charsAndDigits = chars @ ''0123456789''"

definition identRun :: "lexer \<Rightarrow> nat" where
  "identRun l = length (takeWhile (\<lambda>c. c \<in> set charsAndDigits) (drop (pos l) (input l)))"

lemma ascii_chars: "ascii chars" "ascii charsAndDigits"
  by (simp_all add: ascii_def chars_def charsAndDigits_def)

lemma chars_subset: "c \<in> set chars \<Longrightarrow> c \<in> set charsAndDigits"
  by (simp add: charsAndDigits_def)

lemma scanIdentifier_eq:
  "scanIdentifier E l =
     (if \<not> ContainsRune chars (fst (nextRune l)) then (False, l\<lparr>width := width (snd (nextRune l))\<rparr>)
      else if isAlphaNumeric E (fst (nextRune (acceptRun charsAndDigits (snd (nextRune l)))))
           then (False, snd (nextRune (acceptRun charsAndDigits (snd (nextRune l)))))
           else (True, (acceptRun charsAndDigits (snd (nextRune l)))
                   \<lparr>width := width (snd (nextRune (acceptRun charsAndDigits (snd (nextRune l)))))\<rparr>))"
  by (simp add: scanIdentifier_def Let_def accept_eq peek_eq chars_def charsAndDigits_def)

lemma identRun_first:
  assumes "ContainsRune chars (fst (nextRune l))"
  shows "pos (acceptRun charsAndDigits (snd (nextRune l))) = pos l + identRun l"
proof -
  note st = ContainsRune_step [OF ascii_chars(1) assms]
  have d: "drop (pos l) (input l) = input l ! pos l # drop (pos l + 1) (input l)"
    using st(2) by (simp add: Cons_nth_drop_Suc)
  show ?thesis
    using st chars_subset [OF st(3)]
    by (simp add: acceptRun_takeWhile [OF ascii_chars(2)] identRun_def d)
qed

subsection \<open>The number sub-scanner on a sign or a base prefix\<close>

text \<open>
  \<open>signOrPrefix l n\<close>: at the cursor stands a sign (\<open>n = 1\<close>), or the digit 0 and one of
  the letters x, X, o, O, b, B (\<open>n = 2\<close>).
\<close>

definition signOrPrefix :: "lexer \<Rightarrow> nat \<Rightarrow> bool" where
  "signOrPrefix l n =
     ((n = 1 \<and> (runeAt 0 l = 0x2B \<or> runeAt 0 l = 0x2D))
      \<or> (n = 2 \<and> runeAt 0 l = 0x30
          \<and> (runeAt 1 l = 0x78 \<or> runeAt 1 l = 0x58 \<or> runeAt 1 l = 0x6F \<or> runeAt 1 l = 0x4F
               \<or> runeAt 1 l = 0x62 \<or> runeAt 1 l = 0x42)))"






lemma runeAt_width [simp]: "runeAt n (l\<lparr>width := w\<rparr>) = runeAt n l"
  by (cases n) (simp_all add: runeAt_def)



lemma signOrPrefix_width [simp]: "signOrPrefix (l\<lparr>width := w\<rparr>) n = signOrPrefix l n"
  by (simp add: signOrPrefix_def)



subsection \<open>String literals\<close>

text \<open>
  \<open>runesAhead l\<close> are the runes from the cursor to the end of the input. \<open>closes rs\<close>
  says of the runes after an opening quote whether the literal is closed: a backslash
  takes the rune after it, which must exist and be no newline; a newline or the end of
  the runes before the closing quote fails; a quote followed by a quote is an embedded
  quote; a quote followed by another rune, or by nothing, closes the literal.
\<close>

fun closes :: "rune list \<Rightarrow> bool" where
  "closes [] = False"
| "closes (r # rs) =
     (if r = 0x5C then (case rs of [] \<Rightarrow> False | e # rs' \<Rightarrow> if e = 0x0A then False else closes rs')
      else if r = 0x0A then False
      else if r = 0x27 then (case rs of [] \<Rightarrow> True | q # rs' \<Rightarrow> if q = 0x27 then closes rs' else True)
      else closes rs)"

definition runesAhead :: "lexer \<Rightarrow> rune list" where
  "runesAhead l = runes (drop (pos l) (input l))"

lemma runesAhead_Nil: "length (input l) \<le> pos l \<Longrightarrow> runesAhead l = []"
  by (simp add: runesAhead_def runes.simps)

lemma nextRune_eof: "length (input l) \<le> pos l \<Longrightarrow> fst (nextRune l) = eof"
  by (simp add: nextRune_def)

lemma runesAhead_Cons:
  assumes "pos l < length (input l)"
  shows "runesAhead l = fst (nextRune l) # runesAhead (snd (nextRune l))"
proof -
  from assms have ne: "drop (pos l) (input l) \<noteq> []" by simp
  have "drop (snd (DecodeRuneInString (drop (pos l) (input l)))) (drop (pos l) (input l))
      = drop (pos (snd (nextRune l))) (input l)"
    using assms by (simp add: nextRune_def Let_def add.commute)
  moreover have "fst (DecodeRuneInString (drop (pos l) (input l))) = fst (nextRune l)"
    using assms by (simp add: nextRune_def Let_def)
  ultimately show ?thesis
    using ne by (simp add: runesAhead_def runes.simps [of "drop (pos l) (input l)"])
qed

lemma runesAhead_cases:
  obtains (ended) "length (input l) \<le> pos l" "runesAhead l = []" "fst (nextRune l) = eof"
  | (rune) "pos l < length (input l)" "runesAhead l = fst (nextRune l) # runesAhead (snd (nextRune l))"
      "0 \<le> fst (nextRune l)"
proof (cases "pos l < length (input l)")
  case True
  with runesAhead_Cons [OF True] show ?thesis
    by (intro rune) (simp_all add: nextRune_nonneg_iff)
next
  case False
  then show ?thesis
    by (intro ended) (simp_all add: runesAhead_Nil nextRune_eof)
qed

lemma scanString_loop_closes: "fst (scanString_loop l) = closes (runesAhead l)"
proof (induction l rule: scanString_loop.induct)
  case (1 l)
  note IH = "1.IH" [OF refl refl]
  let ?r = "fst (nextRune l)" and ?l1 = "snd (nextRune l)"
  let ?r2 = "fst (nextRune ?l1)" and ?l2 = "snd (nextRune ?l1)"
  show ?case
  proof (cases l rule: runesAhead_cases)
    case ended
    then show ?thesis
      by (subst scanString_loop.simps) (simp add: Let_def eof_def)
  next
    case rune
    note r1 = rune
    show ?thesis
    proof (cases ?l1 rule: runesAhead_cases)
      case ended
      consider (esc) "?r = 0x5C" | (nl) "?r \<noteq> 0x5C" "?r = 0x0A"
        | (quote) "?r \<noteq> 0x5C" "?r \<noteq> 0x0A" "?r = 0x27"
        | (other) "?r \<noteq> 0x5C" "?r \<noteq> 0x0A" "?r \<noteq> 0x27"
        by blast
      then show ?thesis
      proof cases
        case esc
        with r1 ended show ?thesis
          by (subst scanString_loop.simps) (simp add: Let_def)
      next
        case nl
        with r1 ended show ?thesis
          by (subst scanString_loop.simps) (simp add: Let_def)
      next
        case quote
        with r1 ended show ?thesis
          by (subst scanString_loop.simps) (simp add: Let_def eof_def)
      next
        case other
        with r1(3) have "\<not> (?r = eof \<or> ?r = 0x0A)" by (simp add: eof_def)
        from IH(3) [OF other(1) this other(3)] other r1 ended this show ?thesis
          by (subst scanString_loop.simps) (simp add: Let_def)
      qed
    next
      case rune
      note r2 = rune
      have ne: "?r2 \<noteq> eof" using r2(3) by (simp add: eof_def)
      consider (esc) "?r = 0x5C" "?r2 \<noteq> 0x0A" | (badesc) "?r = 0x5C" "?r2 = 0x0A"
        | (nl) "?r \<noteq> 0x5C" "?r = 0x0A"
        | (close) "?r \<noteq> 0x5C" "?r \<noteq> 0x0A" "?r = 0x27" "?r2 \<noteq> 0x27"
        | (quote) "?r \<noteq> 0x5C" "?r \<noteq> 0x0A" "?r = 0x27" "?r2 = 0x27"
        | (other) "?r \<noteq> 0x5C" "?r \<noteq> 0x0A" "?r \<noteq> 0x27"
        by blast
      then show ?thesis
      proof cases
        case esc
        with ne have c: "?r2 \<noteq> eof \<and> ?r2 \<noteq> 0x0A" by simp
        from IH(1) [OF esc(1) c] esc r1 r2 c show ?thesis
          by (subst scanString_loop.simps) (simp add: Let_def)
      next
        case badesc
        with r1 r2 show ?thesis
          by (subst scanString_loop.simps) (simp add: Let_def)
      next
        case nl
        with r1 show ?thesis
          by (subst scanString_loop.simps) (simp add: Let_def)
      next
        case close
        with r1 r2 show ?thesis
          by (subst scanString_loop.simps) (simp add: Let_def eof_def)
      next
        case quote
        from r1(3) quote have a: "\<not> (?r = eof \<or> ?r = 0x0A)" by (simp add: eof_def)
        have b: "\<not> ?r2 \<noteq> 0x27" using quote by simp
        from IH(2) [OF quote(1) a quote(3) b] quote r1 r2 show ?thesis
          by (subst scanString_loop.simps) (simp add: Let_def eof_def)
      next
        case other
        with r1(3) have a: "\<not> (?r = eof \<or> ?r = 0x0A)" by (simp add: eof_def)
        from IH(3) [OF other(1) a other(3)] other r1 a show ?thesis
          by (subst scanString_loop.simps) (simp add: Let_def)
      qed
    qed
  qed
qed

subsection \<open>The items cover the input\<close>

text \<open>
  \<open>cover inp p ts q\<close>: the items \<open>ts\<close>, in their order, lie in the bytes of \<open>inp\<close> from
  offset \<open>p\<close> to offset \<open>q\<close>; the text of each is not empty and is the bytes of \<open>inp\<close>
  from its offset on; and the bytes before the first item, between one item and the
  next, and from the last item to \<open>q\<close>, are white space (\<open>blanks\<close>).
\<close>

definition blanks :: "string \<Rightarrow> bool" where
  "blanks s = list_all (\<lambda>c. c \<in> set spaceChars) s"


lemma blanks_append [simp]: "blanks (xs @ ys) = (blanks xs \<and> blanks ys)"
  by (simp add: blanks_def)

lemma blanks_Nil [simp]: "blanks []"
  by (simp add: blanks_def)









lemma adv_width_left [simp]: "adv (l\<lparr>width := w\<rparr>) l' = adv l l'"
  by (simp add: adv_def)

























text \<open>
  A scan that ends without an error has sent the end-of-input item last, and with it
  all the input it has consumed: \<open>start\<close> is \<open>pos\<close>.
\<close>

definition ended :: "lexer \<Rightarrow> bool" where
  "ended l = (items l \<noteq> [] \<and> (typ' (last (items l)) = itemError \<or> start l = pos l))"

lemma ended_errorf [simp]: "ended (fst (errorf E l format args))"
  by (simp add: ended_def errorf_def)

lemma ended_emit [simp]: "ended (emit l t)"
  by (simp add: ended_def emit_def Let_def)



section \<open>The claims\<close>

text \<open>
  C3, at an input on which the code departs from it: in \<open>select\<close>, a newline, \<open>?\<close>
  the state machine takes the error transition of the value expression at the \<open>?\<close>,
  the first byte of line 2. The scan sends one Error item, last, with the formatted
  message and the byte offset 7 of the pending token, but with line 1:
  \<open>skipWhitespace\<close> has moved \<open>start\<close> over the newline and left \<open>startLine\<close> as
  \<open>emit\<close> set it at the end of the item before, and \<open>errorf\<close> sends \<open>startLine\<close>.
\<close>

theorem error_after_newline_has_line_1:
  "items (lex E name' (''select'' @ [CHR 0x0A] @ ''?'')) =
     [\<lparr>typ' = itemSelect, pos = 0, val = ''select'', line = 1\<rparr>,
      \<lparr>typ' = itemError, pos = 7,
        val = Sprintf E ''unrecognized character at value exrt: %#U'' [ArgRune 0x3F],
        line = 1\<rparr>]"
  by (simp add: exec)

text \<open>
  C9: every scan ends. For every input, \<open>run\<close> reaches the nil state after finitely many
  calls of state functions, and the items sent are not empty, end with an end-of-input
  or an Error item, and hold no such item before the last.
\<close>

theorem scan_terminates:
  "(\<exists>n. runN E n StartStatement
           \<lparr>name = name', input = input', pos = 0, start = 0, width = 0, items = [],
            line = 1, startLine = 1\<rparr> = Some (lex E name' input'))
   \<and> items (lex E name' input') \<noteq> []
   \<and> (typ' (last (items (lex E name' input'))) = itemEOF
      \<or> typ' (last (items (lex E name' input'))) = itemError)
   \<and> list_all (\<lambda>t. typ' t \<noteq> itemEOF \<and> typ' t \<noteq> itemError)
       (butlast (items (lex E name' input')))"
proof -
  from lex_stream [of E name' input']
  have "items (lex E name' input') \<noteq> []"
    and "list_all nonterm (butlast (items (lex E name' input')))"
    and "typ' (last (items (lex E name' input'))) = itemEOF
      \<or> typ' (last (items (lex E name' input'))) = itemError"
    by (auto simp: stream_ok_def)
  moreover have "list_all nonterm = list_all (\<lambda>t. typ' t \<noteq> itemEOF \<and> typ' t \<noteq> itemError)"
    by (simp add: nonterm_def [abs_def])
  ultimately show ?thesis
    using run_runN [of E StartStatement] by (simp add: lex_def)
qed

text \<open>
  C1: the scan of \<open>select * from t;\<close> sends Select, Star, From, Identifier and the
  end-of-input item, in this order, at the byte offsets 0, 7, 9, 14 and 15 of their
  texts in the input.
\<close>

theorem select_star_from_t:
  "items (lex E name' ''select * from t;'') =
     [\<lparr>typ' = itemSelect, pos = 0, val = ''select'', line = 1\<rparr>,
      \<lparr>typ' = itemStar, pos = 7, val = ''*'', line = 1\<rparr>,
      \<lparr>typ' = itemFrom, pos = 9, val = ''from'', line = 1\<rparr>,
      \<lparr>typ' = itemIdentifier, pos = 14, val = ''t'', line = 1\<rparr>,
      \<lparr>typ' = itemEOF, pos = 15, val = '';'', line = 1\<rparr>]"
  by (simp add: exec)

text \<open>
  C4, at an input on which the code departs from it: in \<open>select\<close>, a newline,
  \<open>* from t;\<close> the star is the first byte of line 2, and the Star item carries line 1.
  \<open>skipWhitespace\<close> moves \<open>start\<close> over the newline and leaves \<open>startLine\<close> as
  \<open>emit\<close> set it at the end of the item before.
\<close>

theorem star_after_newline_has_line_1:
  "items (lex E name' (''select'' @ [CHR 0x0A] @ ''* from t;'')) =
     [\<lparr>typ' = itemSelect, pos = 0, val = ''select'', line = 1\<rparr>,
      \<lparr>typ' = itemStar, pos = 7, val = ''*'', line = 1\<rparr>,
      \<lparr>typ' = itemFrom, pos = 9, val = ''from'', line = 2\<rparr>,
      \<lparr>typ' = itemIdentifier, pos = 14, val = ''t'', line = 2\<rparr>,
      \<lparr>typ' = itemEOF, pos = 15, val = '';'', line = 2\<rparr>]"
  by (simp add: exec)

text \<open>
  C6: as the value expression of a statement, each of \<open>11\<close>, \<open>+3.5\<close>, \<open>0xFF\<close>,
  \<open>0b101\<close>, \<open>1e10\<close> and \<open>0x1p4\<close> is sent as one Number item whose text is the whole
  literal; on \<open>12abc\<close> the Number sub-scanner fails at the letter after the digits,
  and the scan ends with the Error item of the message \<open>bad number\<close>.
\<close>

theorem number_literals:
  "(items (lex E name' ''select 11 from t;'') =
     [\<lparr>typ' = itemSelect, pos = 0, val = ''select'', line = 1\<rparr>,
      \<lparr>typ' = itemNumber, pos = 7, val = ''11'', line = 1\<rparr>,
      \<lparr>typ' = itemFrom, pos = 10, val = ''from'', line = 1\<rparr>,
      \<lparr>typ' = itemIdentifier, pos = 15, val = ''t'', line = 1\<rparr>,
      \<lparr>typ' = itemEOF, pos = 16, val = '';'', line = 1\<rparr>])
   \<and> (items (lex E name' ''select +3.5 from t;'') =
     [\<lparr>typ' = itemSelect, pos = 0, val = ''select'', line = 1\<rparr>,
      \<lparr>typ' = itemNumber, pos = 7, val = ''+3.5'', line = 1\<rparr>,
      \<lparr>typ' = itemFrom, pos = 12, val = ''from'', line = 1\<rparr>,
      \<lparr>typ' = itemIdentifier, pos = 17, val = ''t'', line = 1\<rparr>,
      \<lparr>typ' = itemEOF, pos = 18, val = '';'', line = 1\<rparr>])
   \<and> (items (lex E name' ''select 0xFF from t;'') =
     [\<lparr>typ' = itemSelect, pos = 0, val = ''select'', line = 1\<rparr>,
      \<lparr>typ' = itemNumber, pos = 7, val = ''0xFF'', line = 1\<rparr>,
      \<lparr>typ' = itemFrom, pos = 12, val = ''from'', line = 1\<rparr>,
      \<lparr>typ' = itemIdentifier, pos = 17, val = ''t'', line = 1\<rparr>,
      \<lparr>typ' = itemEOF, pos = 18, val = '';'', line = 1\<rparr>])
   \<and> (items (lex E name' ''select 0b101 from t;'') =
     [\<lparr>typ' = itemSelect, pos = 0, val = ''select'', line = 1\<rparr>,
      \<lparr>typ' = itemNumber, pos = 7, val = ''0b101'', line = 1\<rparr>,
      \<lparr>typ' = itemFrom, pos = 13, val = ''from'', line = 1\<rparr>,
      \<lparr>typ' = itemIdentifier, pos = 18, val = ''t'', line = 1\<rparr>,
      \<lparr>typ' = itemEOF, pos = 19, val = '';'', line = 1\<rparr>])
   \<and> (items (lex E name' ''select 1e10 from t;'') =
     [\<lparr>typ' = itemSelect, pos = 0, val = ''select'', line = 1\<rparr>,
      \<lparr>typ' = itemNumber, pos = 7, val = ''1e10'', line = 1\<rparr>,
      \<lparr>typ' = itemFrom, pos = 12, val = ''from'', line = 1\<rparr>,
      \<lparr>typ' = itemIdentifier, pos = 17, val = ''t'', line = 1\<rparr>,
      \<lparr>typ' = itemEOF, pos = 18, val = '';'', line = 1\<rparr>])
   \<and> (items (lex E name' ''select 0x1p4 from t;'') =
     [\<lparr>typ' = itemSelect, pos = 0, val = ''select'', line = 1\<rparr>,
      \<lparr>typ' = itemNumber, pos = 7, val = ''0x1p4'', line = 1\<rparr>,
      \<lparr>typ' = itemFrom, pos = 13, val = ''from'', line = 1\<rparr>,
      \<lparr>typ' = itemIdentifier, pos = 18, val = ''t'', line = 1\<rparr>,
      \<lparr>typ' = itemEOF, pos = 19, val = '';'', line = 1\<rparr>])
   \<and> (items (lex E name' ''select 12abc from t;'') =
     [\<lparr>typ' = itemSelect, pos = 0, val = ''select'', line = 1\<rparr>,
      \<lparr>typ' = itemError, pos = 7,
        val = Sprintf E ''bad number: %q'' [ArgString ''12a''], line = 1\<rparr>])
   \<and> (\<not> fst (scanNumber E \<lparr>name = name', input = ''12abc'', pos = 0, start = 0, width = 0,
                         items = [], line = 1, startLine = 1\<rparr>))"
  by (intro conjI) (simp_all add: exec)




text \<open>
  C5, amended: the Identifier sub-scanner tests the first rune and the run after it
  against ASCII letters, digits and the underscore, and only the rune after the run
  against the letters and digits of Unicode. It succeeds if and only if the byte at the
  cursor is an ASCII letter or the underscore and the rune after the longest run of
  ASCII letters, digits and underscores is no letter, digit or underscore of Unicode.
  On success the cursor stands after that run. On failure at the first rune the cursor
  has not moved; on failure after the run it stands after the rune that follows the
  run.
\<close>

theorem scanIdentifier_ascii_run:
  "fst (scanIdentifier E l) =
      (pos l < length (input l) \<and> input l ! pos l \<in> set chars
       \<and> \<not> isAlphaNumeric E (fst (nextRune (l\<lparr>pos := pos l + identRun l\<rparr>))))
   \<and> pos (snd (scanIdentifier E l)) =
      (if pos l < length (input l) \<and> input l ! pos l \<in> set chars
       then if isAlphaNumeric E (fst (nextRune (l\<lparr>pos := pos l + identRun l\<rparr>)))
            then pos (snd (nextRune (l\<lparr>pos := pos l + identRun l\<rparr>)))
            else pos l + identRun l
       else pos l)"
proof (cases "ContainsRune chars (fst (nextRune l))")
  case False
  then have "\<not> (pos l < length (input l) \<and> input l ! pos l \<in> set chars)"
    by (simp add: ContainsRune_nextRune [OF ascii_chars(1)])
  with False show ?thesis by (auto simp add: scanIdentifier_eq)
next
  case True
  let ?l2 = "acceptRun charsAndDigits (snd (nextRune l))"
  let ?m = "l\<lparr>pos := pos l + identRun l\<rparr>"
  have first: "pos l < length (input l) \<and> input l ! pos l \<in> set chars"
    using True by (simp add: ContainsRune_nextRune [OF ascii_chars(1)])
  have p: "pos ?l2 = pos ?m" using identRun_first [OF True] by simp
  have i: "input ?l2 = input ?m" by simp
  note c = nextRune_cong [OF i p]
  from True first c p show ?thesis
    by (simp add: scanIdentifier_eq)
qed

text \<open>
  C5 as stated fails on a letter outside ASCII. The rune U+00E9, a letter for
  \<open>isAlpha\<close>, followed by a space: the sub-scanner fails, and so it does on the letter
  \<open>a\<close> followed by U+00E9 and a space; as a value expression U+00E9 ends the scan with
  the Error item of the message \<open>bad identifier\<close>.
\<close>

theorem non_ascii_letter_is_no_identifier:
  "isAlpha env0 0xE9
   \<and> fst (nextRune \<lparr>name = [], input = [CHR 0xC3, CHR 0xA9, CHR '' ''], pos = 0, start = 0,
         width = 0, items = [], line = 1, startLine = 1\<rparr>) = 0xE9
   \<and> \<not> isAlphaNumeric env0
        (fst (nextRune \<lparr>name = [], input = [CHR 0xC3, CHR 0xA9, CHR '' ''], pos = 2, start = 0,
         width = 0, items = [], line = 1, startLine = 1\<rparr>))
   \<and> \<not> fst (scanIdentifier env0
        \<lparr>name = [], input = [CHR 0xC3, CHR 0xA9, CHR '' ''], pos = 0, start = 0,
         width = 0, items = [], line = 1, startLine = 1\<rparr>)
   \<and> \<not> fst (scanIdentifier env0
        \<lparr>name = [], input = [CHR ''a'', CHR 0xC3, CHR 0xA9, CHR '' ''], pos = 0, start = 0,
         width = 0, items = [], line = 1, startLine = 1\<rparr>)
   \<and> items (lex env0 [] (''select '' @ [CHR 0xC3, CHR 0xA9] @ '' from t;'')) =
     [\<lparr>typ' = itemSelect, pos = 0, val = ''select'', line = 1\<rparr>,
      \<lparr>typ' = itemError, pos = 7, val = ''bad identifier: %q'', line = 1\<rparr>]"
  by (simp add: exec env0_def decodeMulti_def)





text \<open>
  C7: the String sub-scanner succeeds if and only if the rune at the cursor is a quote
  and the runes after it close the literal in the sense of \<open>closes\<close>: escapes by
  backslash (not of a newline or the end of the input), doubled quotes as embedded
  quotes, failure at a newline or at the end of the input before the closing quote. The
  value expression \<open>'ab''c'\<close> is sent as one String item whose text is the whole
  literal.
\<close>

theorem scanString_closes:
  "fst (scanString l) =
     (case runesAhead l of [] \<Rightarrow> False | q # rs \<Rightarrow> if q = 0x27 then closes rs else False)
   \<and> items (lex E name'
        (''select '' @ [CHR 0x27] @ ''ab'' @ [CHR 0x27, CHR 0x27] @ ''c'' @ [CHR 0x27]
          @ '' from t;'')) =
     [\<lparr>typ' = itemSelect, pos = 0, val = ''select'', line = 1\<rparr>,
      \<lparr>typ' = itemString, pos = 7,
        val = [CHR 0x27] @ ''ab'' @ [CHR 0x27, CHR 0x27] @ ''c'' @ [CHR 0x27], line = 1\<rparr>,
      \<lparr>typ' = itemFrom, pos = 15, val = ''from'', line = 1\<rparr>,
      \<lparr>typ' = itemIdentifier, pos = 20, val = ''t'', line = 1\<rparr>,
      \<lparr>typ' = itemEOF, pos = 21, val = '';'', line = 1\<rparr>]"
proof (intro conjI)
  show "fst (scanString l) =
     (case runesAhead l of [] \<Rightarrow> False | q # rs \<Rightarrow> if q = 0x27 then closes rs else False)"
  proof (cases l rule: runesAhead_cases)
    case ended
    then show ?thesis by (simp add: scanString_def case_prod_beta eof_def)
  next
    case rune
    then show ?thesis
      by (simp add: scanString_def case_prod_beta scanString_loop_closes)
  qed
  show "items (lex E name'
        (''select '' @ [CHR 0x27] @ ''ab'' @ [CHR 0x27, CHR 0x27] @ ''c'' @ [CHR 0x27]
          @ '' from t;'')) =
     [\<lparr>typ' = itemSelect, pos = 0, val = ''select'', line = 1\<rparr>,
      \<lparr>typ' = itemString, pos = 7,
        val = [CHR 0x27] @ ''ab'' @ [CHR 0x27, CHR 0x27] @ ''c'' @ [CHR 0x27], line = 1\<rparr>,
      \<lparr>typ' = itemFrom, pos = 15, val = ''from'', line = 1\<rparr>,
      \<lparr>typ' = itemIdentifier, pos = 20, val = ''t'', line = 1\<rparr>,
      \<lparr>typ' = itemEOF, pos = 21, val = '';'', line = 1\<rparr>]"
    by (simp add: exec)
qed


end
